theory Spec2Isabelle
  imports Complex_Main "HOL-Library.Word"
begin

unbundle bit_operations_syntax

section \<open>The Winmm mixer: volume conversion (WinmmMixerPlugin.cxx)\<close>

text \<open>
  A double of the mixer is the rational it stands for (each one here is finite). The
  arithmetic of doubles rounds: \<open>rnd\<close> maps an exact result to the double that the
  machine returns for it, and is a parameter of the two functions. It is applied to the
  constant \<open>655.35\<close>, to the product and to the quotient; the conversions of the integers
  to double are exact. IEEE 754 rounding to nearest returns 0 for 0 and stays within a
  relative error of \<open>2^-53\<close> of the exact result on normal doubles; \<open>rounds_to_double\<close>
  asks for \<open>2^-52\<close>, on the magnitudes from a thousandth to a million, which hold every
  value that the two functions compute for a volume from 0 to 100.
  \<open>lround\<close> is the C library function: round to the nearest integer, halfway cases
  away from zero.
\<close>

type_synonym DWORD = "32 word"

definition rounds_to_double :: "(rat \<Rightarrow> rat) \<Rightarrow> bool" where
  "rounds_to_double rnd =
     (rnd 0 = 0 \<and>
      (\<forall>x. 1 / 1000 \<le> \<bar>x\<bar> \<and> \<bar>x\<bar> \<le> 1000000 \<longrightarrow> \<bar>rnd x - x\<bar> \<le> \<bar>x\<bar> / 2 ^ 52))"

definition lround :: "rat \<Rightarrow> int" where
  "lround x = (if 0 \<le> x then \<lfloor>x + 1 / 2\<rfloor> else - \<lfloor>- x + 1 / 2\<rfloor>)"

text \<open>
  The Windows macro \<open>MAKELONG(a, b)\<close>:
  \<open>((LONG)(((WORD)(a)) | ((DWORD)((WORD)(b))) << 16))\<close>, where \<open>WORD\<close> is a 16-bit
  and \<open>DWORD\<close> a 32-bit unsigned integer.
\<close>

definition MAKELONG :: "int \<Rightarrow> int \<Rightarrow> DWORD" where
  "MAKELONG a b =
     ucast (word_of_int a :: 16 word) OR push_bit 16 (ucast (word_of_int b :: 16 word))"

definition winmm_volume_decode :: "(rat \<Rightarrow> rat) \<Rightarrow> DWORD \<Rightarrow> int" where
  "winmm_volume_decode rnd volume =
     lround (rnd (of_int (uint (volume AND 0xFFFF)) / rnd 655.35))"

definition winmm_volume_encode :: "(rat \<Rightarrow> rat) \<Rightarrow> int \<Rightarrow> DWORD" where
  "winmm_volume_encode rnd volume =
     (let v = lround (rnd (of_int volume * rnd 655.35)) in MAKELONG v v)"


section \<open>The Vorbis encoder plugin (VorbisEncoderPlugin.cxx)\<close>

subsection \<open>Floating-point values\<close>

text \<open>
  A \<open>float\<close> or \<open>double\<close> of the plugin is the rational it stands for, or NaN (``not a
  number''). A comparison with NaN is false, as IEEE 754 has it. The infinities are not
  modelled; they compare like numbers beyond every bound. The conversion from \<open>double\<close>
  to \<open>float\<close> where the configuration assigns the field \<open>quality\<close> is a parameter of
  the configuration. The product that \<open>vorbis_encode_init_vbr\<close> is given is the exact one;
  its rounding is not modelled.
\<close>

datatype cdouble = Number rat | NaN

fun fp_less :: "cdouble \<Rightarrow> cdouble \<Rightarrow> bool" where
  "fp_less (Number x) (Number y) = (x < y)"
| "fp_less a b = False"

fun fp_greater_eq :: "cdouble \<Rightarrow> cdouble \<Rightarrow> bool" where
  "fp_greater_eq (Number x) (Number y) = (x \<ge> y)"
| "fp_greater_eq a b = False"

fun fp_times :: "cdouble \<Rightarrow> cdouble \<Rightarrow> cdouble" where
  "fp_times (Number x) (Number y) = Number (x * y)"
| "fp_times a b = NaN"

subsection \<open>Audio format\<close>

text \<open>
  \<open>struct audio_format\<close> and the sample formats are declared in \<open>audio_format.h\<close>, which
  is not among the sources: a sample rate (\<open>uint32_t\<close>), a sample format and a channel
  count (\<open>uint8_t\<close>), the fields that the plugin reads and writes.
\<close>

datatype sample_format =
    SAMPLE_FORMAT_UNDEFINED
  | SAMPLE_FORMAT_S8
  | SAMPLE_FORMAT_S16
  | SAMPLE_FORMAT_S24_P32
  | SAMPLE_FORMAT_S32
  | SAMPLE_FORMAT_FLOAT
  | SAMPLE_FORMAT_DSD

record audio_format =
  sample_rate :: "32 word"
  format :: sample_format
  channels :: "8 word"

definition sample_format_size :: "sample_format \<Rightarrow> 32 word" where
  \<comment> \<open>Modelled from the spec: \<open>audio_format.h\<close> is not among the sources. The spec gives
      the frame size as channel count times sample width; a single-precision float is 4
      bytes wide. The other widths follow the names of the formats.\<close>
  "sample_format_size f =
     (case f of
        SAMPLE_FORMAT_UNDEFINED \<Rightarrow> 0
      | SAMPLE_FORMAT_S8 \<Rightarrow> 1
      | SAMPLE_FORMAT_S16 \<Rightarrow> 2
      | SAMPLE_FORMAT_S24_P32 \<Rightarrow> 4
      | SAMPLE_FORMAT_S32 \<Rightarrow> 4
      | SAMPLE_FORMAT_FLOAT \<Rightarrow> 4
      | SAMPLE_FORMAT_DSD \<Rightarrow> 1)"

definition audio_format_frame_size :: "audio_format \<Rightarrow> 32 word" where
  \<comment> \<open>Modelled from the spec: the frame size implied by channel count times sample width,
      an \<open>unsigned\<close> product.\<close>
  "audio_format_frame_size af = sample_format_size (format af) * ucast (channels af)"

subsection \<open>Tags and Vorbis comments\<close>

text \<open>
  A \<open>Tag\<close> is its array of items; an item has a type, an index into the table
  \<open>tag_item_names\<close>, and a value. The table is not among the sources and is a parameter
  of the functions that read it.
\<close>

record TagItem =
  item_type :: nat
  item_value :: string

type_synonym Tag = "TagItem list"

text \<open>
  A \<open>vorbis_comment\<close> is the list of its (field name, text) entries:
  \<open>vorbis_comment_init\<close> leaves it empty and \<open>vorbis_comment_add_tag\<close> appends one entry.
\<close>

type_synonym vorbis_comment = "(string \<times> string) list"

definition vorbis_comment_init :: vorbis_comment where
  "vorbis_comment_init = []"

definition vorbis_comment_add_tag :: "vorbis_comment \<Rightarrow> string \<Rightarrow> string \<Rightarrow> vorbis_comment" where
  "vorbis_comment_add_tag vc name text = vc @ [(name, text)]"

definition g_ascii_toupper :: "char \<Rightarrow> char" where
  "g_ascii_toupper c =
     (if 97 \<le> (of_char c :: nat) \<and> (of_char c :: nat) \<le> 122
      then char_of ((of_char c :: nat) - 32) else c)"

definition g_ascii_strup :: "string \<Rightarrow> string" where
  "g_ascii_strup s = map g_ascii_toupper s"

fun copy_tag_to_vorbis_comment ::
  "(nat \<Rightarrow> string) \<Rightarrow> vorbis_comment \<Rightarrow> Tag \<Rightarrow> vorbis_comment" where
  "copy_tag_to_vorbis_comment tag_item_names vc [] = vc"
| "copy_tag_to_vorbis_comment tag_item_names vc (item # items) =
     copy_tag_to_vorbis_comment tag_item_names
       (vorbis_comment_add_tag vc (g_ascii_strup (tag_item_names (item_type item)))
          (item_value item))
       items"

subsection \<open>Packets and the calls on the codec and on the container stream\<close>

text \<open>
  The three header packets that \<open>vorbis_analysis_headerout\<close> builds (the second from
  the comment it is given), and the audio packets that \<open>vorbis_bitrate_flushpacket\<close>
  hands out (their bytes are the codec's business).
\<close>

datatype ogg_packet =
    Identification_header
  | Comment_header vorbis_comment
  | Codebooks_header
  | Audio_packet "8 word list"

definition vorbis_analysis_headerout ::
  "vorbis_comment \<Rightarrow> ogg_packet \<times> ogg_packet \<times> ogg_packet" where
  "vorbis_analysis_headerout vc = (Identification_header, Comment_header vc, Codebooks_header)"

text \<open>
  A float sample is only ever copied, so it is its 32-bit pattern.
\<close>

type_synonym sample = "32 word"

text \<open>
  The objects \<open>vd\<close>, \<open>vb\<close>, \<open>vi\<close> of libvorbis and the \<open>OggStream\<close> are opaque to the
  plugin. In their place the model keeps every call the plugin makes on them, with its
  arguments, in program order. Where the plugin branches on what a call returns, the
  returned value is an argument of the model's function. \<open>Pcm_store\<close> stands for the
  stores of \<open>interleaved_to_vorbis_buffer\<close> into the arrays that
  \<open>vorbis_analysis_buffer\<close> returned: it holds these arrays as the plugin leaves them.
\<close>

datatype call =
    Vorbis_info_init
  | Vorbis_encode_init_vbr "8 word" "32 word" cdouble
  | Vorbis_encode_init "8 word" "32 word" "32 word"
  | Vorbis_info_clear
  | Vorbis_analysis_init
  | Vorbis_block_init
  | Vorbis_block_clear
  | Vorbis_dsp_clear
  | Vorbis_analysis_headerout vorbis_comment
  | Vorbis_analysis_buffer int
  | Pcm_store "sample list list"
  | Vorbis_analysis_wrote int
  | Vorbis_analysis_blockout bool
  | Vorbis_analysis
  | Vorbis_bitrate_addblock
  | Vorbis_bitrate_flushpacket "ogg_packet option"
  | Stream_Initialize "32 word"
  | Stream_Reinitialize "32 word"
  | Stream_Deinitialize
  | Stream_Flush
  | Stream_PacketIn ogg_packet
  | Stream_PageOut "64 word"

text \<open>\<open>struct vorbis_encoder\<close>.\<close>

record vorbis_encoder =
  quality :: cdouble
  bitrate :: "32 word"
  audio_format :: audio_format
  calls :: "call list"

definition emit :: "call list \<Rightarrow> vorbis_encoder \<Rightarrow> vorbis_encoder" where
  "emit cs encoder = encoder\<lparr>calls := calls encoder @ cs\<rparr>"


subsection \<open>Configuration\<close>

text \<open>
  The settings block is a dictionary from setting names to strings;
  \<open>config_get_block_string\<close> with the default \<open>nullptr\<close> is the lookup.
\<close>

type_synonym config_param = "string \<rightharpoonup> string"

definition config_get_block_string :: "config_param \<Rightarrow> string \<Rightarrow> string option" where
  \<comment> \<open>Modelled from the spec: the configuration framework is not among the sources. By
      the spec the lookup returns the string of a setting of the block, if it has one.\<close>
  "config_get_block_string param name = param name"

text \<open>
  The four failures of the configuration, named after the messages that
  \<open>g_set_error\<close> is given: ``quality ... is not a number in the range -1 to 10'',
  ``quality and bitrate are both defined'', ``neither bitrate nor quality defined'' and
  ``bitrate ... should be a positive integer''.
\<close>

datatype config_error = InvalidQuality | ConflictingMode | MissingMode | InvalidBitrate

text \<open>
  GLib's parsers \<open>g_ascii_strtod\<close> and \<open>g_ascii_strtoll\<close> (base 10) are parameters: each
  returns the number it read and the rest of the string, where \<open>endptr\<close> points.
  \<open>*endptr != '\0'\<close> holds when that rest is not empty. The parsed \<open>double\<close> is
  converted to the \<open>float\<close> field \<open>quality\<close> by \<open>to_float\<close>, and the comparisons read the
  field. The parsed \<open>gint64\<close> is narrowed to the \<open>int\<close> field \<open>bitrate\<close>.
\<close>

definition vorbis_encoder_configure ::
  "(cdouble \<Rightarrow> cdouble) \<Rightarrow> (string \<Rightarrow> cdouble \<times> string) \<Rightarrow>
     (string \<Rightarrow> 64 word \<times> string) \<Rightarrow>
     vorbis_encoder \<Rightarrow> config_param \<Rightarrow> config_error + vorbis_encoder" where
  "vorbis_encoder_configure to_float g_ascii_strtod g_ascii_strtoll encoder param =
     (case config_get_block_string param ''quality'' of
        Some v \<Rightarrow>
          (let (q, endptr) = g_ascii_strtod v;
               encoder1 = encoder\<lparr>quality := to_float q\<rparr>
           in if endptr \<noteq> [] \<or> fp_less (quality encoder1) (Number (- 1)) \<or>
                 fp_less (Number 10) (quality encoder1)
              then Inl InvalidQuality
              else if config_get_block_string param ''bitrate'' \<noteq> None
              then Inl ConflictingMode
              else Inr encoder1)
      | None \<Rightarrow>
          (case config_get_block_string param ''bitrate'' of
             None \<Rightarrow> Inl MissingMode
           | Some v \<Rightarrow>
               (let encoder1 = encoder\<lparr>quality := Number (- 2)\<rparr>;
                    (b, endptr) = g_ascii_strtoll v;
                    encoder2 = encoder1\<lparr>bitrate := ucast b\<rparr>
                in if endptr \<noteq> [] \<or> bitrate encoder2 \<le>s 0
                   then Inl InvalidBitrate
                   else Inr encoder2)))"

text \<open>
  The encoding mode of a configured session, as \<open>vorbis_encoder_reinit\<close> reads it off
  the two fields: a quality of at least \<open>-1\<close> selects the variable-quality mode.
\<close>

datatype EncodingMode = VariableQuality cdouble | ConstantBitrate "32 word"

definition encoding_mode :: "vorbis_encoder \<Rightarrow> EncodingMode" where
  "encoding_mode encoder =
     (if fp_greater_eq (quality encoder) (Number (- 1)) then VariableQuality (quality encoder)
      else ConstantBitrate (bitrate encoder))"

subsection \<open>Opening and closing\<close>

text \<open>
  \<open>rc\<close> is what \<open>vorbis_encode_init_vbr\<close> or \<open>vorbis_encode_init\<close> returns and \<open>random\<close>
  what \<open>g_random_int\<close> returns.
\<close>

definition vorbis_encoder_reinit ::
  "vorbis_encoder \<Rightarrow> int \<Rightarrow> 32 word \<Rightarrow> bool \<times> vorbis_encoder" where
  "vorbis_encoder_reinit encoder rc random =
     (let af = audio_format encoder;
          encoder1 = emit [Vorbis_info_init] encoder
      in if fp_greater_eq (quality encoder) (Number (- 1))
         then
           (let encoder2 =
                  emit [Vorbis_encode_init_vbr (channels af) (sample_rate af)
                          (fp_times (quality encoder) (Number 0.1))] encoder1
            in if 0 \<noteq> rc then (False, emit [Vorbis_info_clear] encoder2)
               else (True, emit [Vorbis_analysis_init, Vorbis_block_init,
                                 Stream_Initialize random] encoder2))
         else
           (let encoder2 =
                  emit [Vorbis_encode_init (channels af) (sample_rate af)
                          (bitrate encoder * 1000)] encoder1
            in if 0 \<noteq> rc then (False, emit [Vorbis_info_clear] encoder2)
               else (True, emit [Vorbis_analysis_init, Vorbis_block_init,
                                 Stream_Initialize random] encoder2)))"

definition vorbis_encoder_headerout :: "vorbis_encoder \<Rightarrow> vorbis_comment \<Rightarrow> vorbis_encoder" where
  "vorbis_encoder_headerout encoder vc =
     (let (packet, comments, codebooks) = vorbis_analysis_headerout vc
      in emit [Vorbis_analysis_headerout vc, Stream_PacketIn packet,
               Stream_PacketIn comments, Stream_PacketIn codebooks] encoder)"

definition vorbis_encoder_send_header :: "vorbis_encoder \<Rightarrow> vorbis_encoder" where
  "vorbis_encoder_send_header encoder = vorbis_encoder_headerout encoder vorbis_comment_init"

text \<open>
  \<open>vorbis_encoder_open\<close> writes through the pointer \<open>audio_format\<close> of its caller: the
  second component of the result is the caller's descriptor after the call.
\<close>

definition vorbis_encoder_open ::
  "vorbis_encoder \<Rightarrow> audio_format \<Rightarrow> int \<Rightarrow> 32 word \<Rightarrow> bool \<times> audio_format \<times> vorbis_encoder" where
  "vorbis_encoder_open encoder af rc random =
     (let af1 = af\<lparr>format := SAMPLE_FORMAT_FLOAT\<rparr>;
          encoder1 = encoder\<lparr>audio_format := af1\<rparr>;
          (ok, encoder2) = vorbis_encoder_reinit encoder1 rc random
      in if \<not> ok then (False, af1, encoder2)
         else (True, af1, vorbis_encoder_send_header encoder2))"

definition vorbis_encoder_clear :: "vorbis_encoder \<Rightarrow> vorbis_encoder" where
  "vorbis_encoder_clear encoder =
     emit [Stream_Deinitialize, Vorbis_block_clear, Vorbis_dsp_clear, Vorbis_info_clear] encoder"

definition vorbis_encoder_close :: "vorbis_encoder \<Rightarrow> vorbis_encoder" where
  "vorbis_encoder_close encoder = vorbis_encoder_clear encoder"

subsection \<open>Draining the codec\<close>

text \<open>
  What the codec answers during one drain is an argument: the list of the blocks for
  which \<open>vorbis_analysis_blockout\<close> returns 1, each block the list of the packets that
  \<open>vorbis_bitrate_flushpacket\<close> hands out for it (a packet being its bytes). After the
  last packet of a block \<open>vorbis_bitrate_flushpacket\<close> returns 0, and after the last
  block \<open>vorbis_analysis_blockout\<close> returns a value other than 1. The list is finite:
  the codec answers 1 finitely often.
\<close>

type_synonym drain = "8 word list list list"

fun flushpackets :: "vorbis_encoder \<Rightarrow> 8 word list list \<Rightarrow> vorbis_encoder" where
  "flushpackets encoder [] = emit [Vorbis_bitrate_flushpacket None] encoder"
| "flushpackets encoder (p # ps) =
     flushpackets
       (emit [Vorbis_bitrate_flushpacket (Some (Audio_packet p)),
              Stream_PacketIn (Audio_packet p)] encoder)
       ps"

fun vorbis_encoder_blockout :: "vorbis_encoder \<Rightarrow> drain \<Rightarrow> vorbis_encoder" where
  "vorbis_encoder_blockout encoder [] = emit [Vorbis_analysis_blockout False] encoder"
| "vorbis_encoder_blockout encoder (b # bs) =
     vorbis_encoder_blockout
       (flushpackets
          (emit [Vorbis_analysis_blockout True, Vorbis_analysis, Vorbis_bitrate_addblock]
             encoder)
          b)
       bs"

subsection \<open>Flush, tags\<close>

definition vorbis_encoder_flush :: "vorbis_encoder \<Rightarrow> bool \<times> vorbis_encoder" where
  "vorbis_encoder_flush encoder = (True, emit [Stream_Flush] encoder)"

definition vorbis_encoder_pre_tag :: "vorbis_encoder \<Rightarrow> drain \<Rightarrow> bool \<times> vorbis_encoder" where
  "vorbis_encoder_pre_tag encoder d =
     (let encoder1 = emit [Vorbis_analysis_wrote 0] encoder;
          encoder2 = vorbis_encoder_blockout encoder1 d;
          encoder3 = emit [Vorbis_block_clear, Vorbis_dsp_clear,
                           Vorbis_analysis_init, Vorbis_block_init] encoder2;
          encoder4 = emit [Stream_Flush] encoder3
      in (True, encoder4))"

definition vorbis_encoder_tag ::
  "(nat \<Rightarrow> string) \<Rightarrow> vorbis_encoder \<Rightarrow> Tag \<Rightarrow> 32 word \<Rightarrow> bool \<times> vorbis_encoder" where
  "vorbis_encoder_tag tag_item_names encoder tag random =
     (let comment = copy_tag_to_vorbis_comment tag_item_names vorbis_comment_init tag;
          encoder1 = emit [Stream_Reinitialize random] encoder;
          encoder2 = vorbis_encoder_headerout encoder1 comment
      in (True, encoder2))"

subsection \<open>Writing and reading\<close>

text \<open>
  What C leaves undefined is a fault of the model: a division by zero, a load from
  beyond the end of the source buffer, a store beyond the end of a destination buffer.
\<close>

datatype fault = Division_by_zero | Load_out_of_buffer | Store_out_of_buffer

text \<open>
  The inner loop of \<open>interleaved_to_vorbis_buffer\<close>, over the channels \<open>j\<close> of frame \<open>i\<close>.
  The pointer \<open>src\<close> is the list of the samples from where it points to the end of the
  buffer, and \<open>src++\<close> its tail.
\<close>

function channels_loop ::
  "sample list list \<Rightarrow> sample list \<Rightarrow> nat \<Rightarrow> nat \<Rightarrow> nat \<Rightarrow>
     fault + sample list list \<times> sample list" where
  "channels_loop dest src i j num_channels =
     (if j < num_channels then
        (case src of
           [] \<Rightarrow> Inl Load_out_of_buffer
         | x # src' \<Rightarrow>
             if j < length dest \<and> i < length (dest ! j)
             then channels_loop (dest[j := (dest ! j)[i := x]]) src' i (Suc j) num_channels
             else Inl Store_out_of_buffer)
      else Inr (dest, src))"
  by pat_completeness auto
termination
  by (relation "measure (\<lambda>(dest, src, i, j, num_channels). num_channels - j)") auto

declare channels_loop.simps [simp del]

text \<open>The outer loop, over the frames \<open>i\<close>.\<close>

function frames_loop ::
  "sample list list \<Rightarrow> sample list \<Rightarrow> nat \<Rightarrow> nat \<Rightarrow> nat \<Rightarrow>
     fault + sample list list \<times> sample list" where
  "frames_loop dest src i num_frames num_channels =
     (if i < num_frames then
        (case channels_loop dest src i 0 num_channels of
           Inl f \<Rightarrow> Inl f
         | Inr (dest', src') \<Rightarrow> frames_loop dest' src' (Suc i) num_frames num_channels)
      else Inr (dest, src))"
  by pat_completeness auto
termination
  by (relation "measure (\<lambda>(dest, src, i, num_frames, num_channels). num_frames - i)") auto

declare frames_loop.simps [simp del]

definition interleaved_to_vorbis_buffer ::
  "sample list list \<Rightarrow> sample list \<Rightarrow> 32 word \<Rightarrow> 32 word \<Rightarrow> fault + sample list list" where
  "interleaved_to_vorbis_buffer dest src num_frames num_channels =
     (case frames_loop dest src 0 (unat num_frames) (unat num_channels) of
        Inl f \<Rightarrow> Inl f
      | Inr (dest', src') \<Rightarrow> Inr dest')"

text \<open>
  \<open>vorbis_analysis_buffer(&vd, vals)\<close> returns one array per channel of the codec, each
  with room for \<open>vals\<close> samples (\<open>vals\<close> is an \<open>int\<close>; there is no room when it is
  negative). The codec has the channel count it was initialised with, that of the stored
  audio format. What the arrays hold before the plugin fills them is of no concern and
  taken to be 0.
\<close>

definition vorbis_analysis_buffer :: "audio_format \<Rightarrow> int \<Rightarrow> sample list list" where
  "vorbis_analysis_buffer af vals = replicate (unat (channels af)) (replicate (nat vals) 0)"

text \<open>
  \<open>data\<close> is the source buffer read as an array of floats, \<open>len\<close> its length in bytes
  (a \<open>size_t\<close>, 64 bits wide). \<open>num_frames\<close> is an \<open>unsigned\<close>, 32 bits wide, and is
  converted to \<open>int\<close> where it is passed to libvorbis.
\<close>

definition vorbis_encoder_write ::
  "vorbis_encoder \<Rightarrow> sample list \<Rightarrow> 64 word \<Rightarrow> drain \<Rightarrow> fault + bool \<times> vorbis_encoder" where
  "vorbis_encoder_write encoder data len d =
     (let frame_size = audio_format_frame_size (audio_format encoder)
      in if frame_size = 0 then Inl Division_by_zero
         else
           (let num_frames = (ucast (len div ucast frame_size) :: 32 word);
                buffer = vorbis_analysis_buffer (audio_format encoder) (sint num_frames)
            in case interleaved_to_vorbis_buffer buffer data num_frames
                      (ucast (channels (audio_format encoder))) of
                 Inl f \<Rightarrow> Inl f
               | Inr dest \<Rightarrow>
                   Inr (True,
                        vorbis_encoder_blockout
                          (emit [Vorbis_analysis_buffer (sint num_frames), Pcm_store dest,
                                 Vorbis_analysis_wrote (sint num_frames)] encoder)
                          d)))"

text \<open>\<open>n\<close> is what \<open>OggStream::PageOut\<close> returns, the number of bytes it copied.\<close>

definition vorbis_encoder_read :: "vorbis_encoder \<Rightarrow> 64 word \<Rightarrow> 64 word \<Rightarrow> 64 word \<times> vorbis_encoder" where
  "vorbis_encoder_read encoder len n = (n, emit [Stream_PageOut len] encoder)"

definition vorbis_encoder_get_mime_type :: string where
  "vorbis_encoder_get_mime_type = ''audio/ogg''"


subsection \<open>Sessions\<close>

text \<open>
  The operations on an open session, each with what the codec, the stream and the random
  source answer during it. A fault ends the run.
\<close>

datatype operation =
    Write "sample list" "64 word" drain
  | Flush
  | PreTag drain
  | UpdateTag Tag "32 word"
  | Read "64 word" "64 word"
  | Close

fun step :: "(nat \<Rightarrow> string) \<Rightarrow> vorbis_encoder \<Rightarrow> operation \<Rightarrow> fault + vorbis_encoder" where
  "step tag_item_names encoder (Write data len d) =
     (case vorbis_encoder_write encoder data len d of
        Inl f \<Rightarrow> Inl f
      | Inr (ok, encoder') \<Rightarrow> Inr encoder')"
| "step tag_item_names encoder Flush = Inr (snd (vorbis_encoder_flush encoder))"
| "step tag_item_names encoder (PreTag d) = Inr (snd (vorbis_encoder_pre_tag encoder d))"
| "step tag_item_names encoder (UpdateTag tag random) =
     Inr (snd (vorbis_encoder_tag tag_item_names encoder tag random))"
| "step tag_item_names encoder (Read len n) = Inr (snd (vorbis_encoder_read encoder len n))"
| "step tag_item_names encoder Close = Inr (vorbis_encoder_close encoder)"

fun run :: "(nat \<Rightarrow> string) \<Rightarrow> vorbis_encoder \<Rightarrow> operation list \<Rightarrow> fault + vorbis_encoder" where
  "run tag_item_names encoder [] = Inr encoder"
| "run tag_item_names encoder (x # xs) =
     (case step tag_item_names encoder x of
        Inl f \<Rightarrow> Inl f
      | Inr encoder' \<Rightarrow> run tag_item_names encoder' xs)"

text \<open>
  An open session holds the format that \<open>vorbis_encoder_open\<close> stored, with at least one
  channel.
\<close>

definition open_session :: "vorbis_encoder \<Rightarrow> bool" where
  "open_session encoder =
     (format (audio_format encoder) = SAMPLE_FORMAT_FLOAT \<and> channels (audio_format encoder) \<noteq> 0)"

text \<open>
  The source buffer of \<open>len\<close> bytes holds \<open>len div 4\<close> whole floats.
\<close>

definition buffer_of :: "sample list \<Rightarrow> 64 word \<Rightarrow> bool" where
  "buffer_of data len = (length data = unat len div 4)"

subsection \<open>Reading the calls\<close>

text \<open>The calls of one drain of the codec, for what the codec answers.\<close>

fun flushpacket_calls :: "8 word list list \<Rightarrow> call list" where
  "flushpacket_calls [] = [Vorbis_bitrate_flushpacket None]"
| "flushpacket_calls (p # ps) =
     Vorbis_bitrate_flushpacket (Some (Audio_packet p)) # Stream_PacketIn (Audio_packet p) #
     flushpacket_calls ps"

fun blockout_calls :: "drain \<Rightarrow> call list" where
  "blockout_calls [] = [Vorbis_analysis_blockout False]"
| "blockout_calls (b # bs) =
     Vorbis_analysis_blockout True # Vorbis_analysis # Vorbis_bitrate_addblock #
     flushpacket_calls b @ blockout_calls bs"

text \<open>The packets submitted to the container stream.\<close>

fun submitted :: "call list \<Rightarrow> ogg_packet list" where
  "submitted [] = []"
| "submitted (Stream_PacketIn p # cs) = p # submitted cs"
| "submitted (c # cs) = submitted cs"

text \<open>The calls that write the model descriptor \<open>vi\<close>.\<close>

fun writes_info :: "call \<Rightarrow> bool" where
  "writes_info Vorbis_info_init = True"
| "writes_info (Vorbis_encode_init_vbr c r q) = True"
| "writes_info (Vorbis_encode_init c r b) = True"
| "writes_info Vorbis_info_clear = True"
| "writes_info c = False"

text \<open>The calls that clear or initialise the analysis state \<open>vd\<close> and the block \<open>vb\<close>.\<close>

fun resets_codec :: "call \<Rightarrow> bool" where
  "resets_codec Vorbis_block_clear = True"
| "resets_codec Vorbis_dsp_clear = True"
| "resets_codec Vorbis_analysis_init = True"
| "resets_codec Vorbis_block_init = True"
| "resets_codec c = False"

text \<open>
  The planar form of interleaved samples: channel \<open>j\<close> holds, at frame \<open>i\<close>, the sample at
  \<open>i * ch + j\<close> of the source.
\<close>

definition planar :: "sample list \<Rightarrow> nat \<Rightarrow> nat \<Rightarrow> sample list list" where
  "planar data ch frames = map (\<lambda>j. map (\<lambda>i. data ! (i * ch + j)) [0..<frames]) [0..<ch]"

text \<open>
  The logical streams of the container stream, the most recent first, each with its
  identifier and the packets submitted to it.
\<close>

type_synonym logical_stream = "32 word \<times> ogg_packet list"

fun stream_call :: "logical_stream list \<Rightarrow> call \<Rightarrow> logical_stream list" where
  \<comment> \<open>Modelled from the spec: \<open>OggStream.hxx\<close> is not among the sources. By the spec
      \<open>Initialize\<close> (begin) and \<open>Reinitialize\<close> (restart) start a new logical stream with
      the identifier they are given, and \<open>PacketIn\<close> (submit) appends the packet to the
      current logical stream; flushing and reading leave the logical streams as they are.\<close>
  "stream_call ss (Stream_Initialize serial) = (serial, []) # ss"
| "stream_call ss (Stream_Reinitialize serial) = (serial, []) # ss"
| "stream_call ((serial, ps) # ss) (Stream_PacketIn p) = (serial, ps @ [p]) # ss"
| "stream_call ss c = ss"

definition logical_streams :: "call list \<Rightarrow> logical_stream list" where
  "logical_streams cs = foldl stream_call [] cs"

text \<open>The identifiers the container stream has had, the oldest first.\<close>

definition serial_history :: "call list \<Rightarrow> 32 word list" where
  "serial_history cs = rev (map fst (logical_streams cs))"

fun tag_serials :: "operation list \<Rightarrow> 32 word list" where
  "tag_serials [] = []"
| "tag_serials (UpdateTag tag random # xs) = random # tag_serials xs"
| "tag_serials (x # xs) = tag_serials xs"

fun is_audio :: "ogg_packet \<Rightarrow> bool" where
  "is_audio (Audio_packet bytes) = True"
| "is_audio p = False"

text \<open>
  The packets of a logical stream start with the three headers, in their order, and
  all the packets after them are audio packets.
\<close>

fun headers_first :: "ogg_packet list \<Rightarrow> bool" where
  "headers_first (Identification_header # Comment_header vc # Codebooks_header # ps) =
     list_all is_audio ps"
| "headers_first ps = False"

definition streams_headers_first :: "call list \<Rightarrow> bool" where
  "streams_headers_first cs = list_all (\<lambda>s. headers_first (snd s)) (logical_streams cs)"

text \<open>
  The four objects of \<open>struct vorbis_encoder\<close> that the plugin initialises and clears: the
  model descriptor \<open>vi\<close>, the analysis state \<open>vd\<close>, the block \<open>vb\<close> and the container
  stream. An object is live after the calls \<open>cs\<close> when it has been initialised and not
  cleared since.
\<close>

datatype resource = Model_descriptor | Analysis_state | Block_buffer | Container_stream

fun acquires :: "resource \<Rightarrow> call \<Rightarrow> bool" where
  "acquires Model_descriptor Vorbis_info_init = True"
| "acquires Analysis_state Vorbis_analysis_init = True"
| "acquires Block_buffer Vorbis_block_init = True"
| "acquires Container_stream (Stream_Initialize serial) = True"
| "acquires r c = False"

fun releases :: "resource \<Rightarrow> call \<Rightarrow> bool" where
  "releases Model_descriptor Vorbis_info_clear = True"
| "releases Analysis_state Vorbis_dsp_clear = True"
| "releases Block_buffer Vorbis_block_clear = True"
| "releases Container_stream Stream_Deinitialize = True"
| "releases r c = False"

definition live :: "resource \<Rightarrow> call list \<Rightarrow> bool" where
  "live r cs = foldl (\<lambda>held c. (held \<or> acquires r c) \<and> \<not> releases r c) False cs"

text \<open>
  The plugin keeps no variable for the lifecycle states that the spec names; they are
  read off the calls. A session is in the state Streaming, open and ready for
  \<open>vorbis_encoder_write\<close>, when the three objects of the codec and the container stream are
  live and the current logical stream holds its three headers, followed by audio packets
  only.
\<close>

definition streaming :: "vorbis_encoder \<Rightarrow> bool" where
  "streaming encoder =
     (live Model_descriptor (calls encoder) \<and> live Analysis_state (calls encoder) \<and>
      live Block_buffer (calls encoder) \<and> live Container_stream (calls encoder) \<and>
      (case logical_streams (calls encoder) of
         [] \<Rightarrow> False
       | s # ss \<Rightarrow> headers_first (snd s)))"

subsection \<open>Concrete inputs\<close>

text \<open>
  For running the configuration on concrete settings: the two parsers on plain decimal
  numerals, an optional sign, digits, and for \<open>plain_strtod\<close> an optional fraction.
  With no digit to read nothing is consumed and the number is 0, as \<open>strtod\<close> and
  \<open>strtoll\<close> have it. \<open>g_ascii_strtod\<close> behaves like \<open>strtod\<close> in the C locale,
  which reads the string \<open>nan\<close> as a NaN.
\<close>

definition is_digit :: "char \<Rightarrow> bool" where
  "is_digit c = (48 \<le> (of_char c :: nat) \<and> (of_char c :: nat) \<le> 57)"

definition digits_value :: "string \<Rightarrow> nat" where
  "digits_value ds = foldl (\<lambda>a c. 10 * a + ((of_char c :: nat) - 48)) 0 ds"

definition unsigned_decimal :: "string \<Rightarrow> (rat \<times> string) option" where
  "unsigned_decimal s =
     (let ip = takeWhile is_digit s; r = dropWhile is_digit s
      in if ip = [] then None
         else
           (case r of
              CHR ''.'' # r' \<Rightarrow>
                (let fp = takeWhile is_digit r'
                 in Some (of_nat (digits_value ip) + of_nat (digits_value fp) / 10 ^ length fp,
                          dropWhile is_digit r'))
            | _ \<Rightarrow> Some (of_nat (digits_value ip), r)))"

definition plain_strtod :: "string \<Rightarrow> cdouble \<times> string" where
  "plain_strtod s =
     (if s = ''nan'' then (NaN, [])
      else
        (case s of
           CHR ''-'' # t \<Rightarrow>
             (case unsigned_decimal t of
                None \<Rightarrow> (Number 0, s)
              | Some (v, r) \<Rightarrow> (Number (- v), r))
         | _ \<Rightarrow>
             (case unsigned_decimal s of
                None \<Rightarrow> (Number 0, s)
              | Some (v, r) \<Rightarrow> (Number v, r))))"

definition plain_strtoll :: "string \<Rightarrow> 64 word \<times> string" where
  "plain_strtoll s =
     (case s of
        CHR ''-'' # t \<Rightarrow>
          (if takeWhile is_digit t = [] then (0, s)
           else (- of_nat (digits_value (takeWhile is_digit t)), dropWhile is_digit t))
      | _ \<Rightarrow>
          (if takeWhile is_digit s = [] then (0, s)
           else (of_nat (digits_value (takeWhile is_digit s)), dropWhile is_digit s)))"

text \<open>A session as \<open>vorbis_encoder_init\<close> allocates it, before the configuration.\<close>

definition new_encoder :: vorbis_encoder where
  "new_encoder =
     \<lparr>quality = Number 0, bitrate = 0,
      audio_format = \<lparr>sample_rate = 0, format = SAMPLE_FORMAT_UNDEFINED, channels = 0\<rparr>,
      calls = []\<rparr>"

definition stereo :: audio_format where
  "stereo = \<lparr>sample_rate = 44100, format = SAMPLE_FORMAT_S16, channels = 2\<rparr>"

definition mono :: audio_format where
  "mono = \<lparr>sample_rate = 44100, format = SAMPLE_FORMAT_FLOAT, channels = 1\<rparr>"

text \<open>Two sessions opened at quality 5, and a run of operations.\<close>

definition example_session :: vorbis_encoder where
  "example_session =
     snd (snd (vorbis_encoder_open (new_encoder\<lparr>quality := Number 5\<rparr>) stereo 0 7))"

definition mono_session :: vorbis_encoder where
  "mono_session =
     snd (snd (vorbis_encoder_open (new_encoder\<lparr>quality := Number 5\<rparr>) mono 0 7))"

definition example_tag :: Tag where
  "example_tag = [\<lparr>item_type = 0, item_value = ''x''\<rparr>]"

definition example_run :: "operation list" where
  "example_run =
     [Write [1, 2, 3, 4, 5] 23 [[[1, 2], [3]], []], PreTag [[[9]]],
      UpdateTag example_tag 8, Flush, Read 10 3, Close]"


section \<open>The volume conversion round-trips\<close>

lemma lround_bounds: "of_int (lround x) \<le> x + 1/2 \<and> x - 1/2 \<le> of_int (lround x)"
  unfolding lround_def by (auto; linarith)

lemma lround_unique:
  assumes "\<bar>x - of_int n\<bar> < 1/2"
  shows "lround x = n"
proof (cases "0 \<le> x")
  case True
  have "\<lfloor>x + 1/2\<rfloor> = n" using assms by (intro floor_unique; linarith)
  with True show ?thesis by (simp add: lround_def)
next
  case False
  have "\<lfloor>- x + 1/2\<rfloor> = - n" using assms by (intro floor_unique; simp; linarith)
  with False show ?thesis by (simp add: lround_def)
qed

lemma rnd_close:
  assumes "rounds_to_double rnd" and "x = 0 \<or> 1 / 1000 \<le> \<bar>x\<bar> \<and> \<bar>x\<bar> \<le> 1000000"
  shows "\<bar>rnd x - x\<bar> \<le> \<bar>x\<bar> / 1000000000"
proof (cases "x = 0")
  case True
  with assms(1) show ?thesis by (simp add: rounds_to_double_def)
next
  case False
  with assms have "\<bar>rnd x - x\<bar> \<le> \<bar>x\<bar> / 2 ^ 52" by (simp add: rounds_to_double_def)
  also have "\<dots> \<le> \<bar>x\<bar> / 1000000000"
    by (rule divide_left_mono) simp_all
  finally show ?thesis .
qed

lemma rnd_constant:
  assumes "rounds_to_double rnd"
  shows "13107 / 20 - 1 / 1000000 \<le> rnd 655.35" and "rnd 655.35 \<le> 13107 / 20 + 1 / 1000000"
proof -
  have "\<bar>rnd (13107 / 20) - 13107 / 20\<bar> \<le> (13107 / 20) / 1000000000"
    using rnd_close [OF assms, of "13107 / 20"] by simp
  then have "13107 / 20 - 1 / 1000000 \<le> rnd (13107 / 20) \<and>
      rnd (13107 / 20) \<le> 13107 / 20 + 1 / 1000000"
    by linarith
  then show "13107 / 20 - 1 / 1000000 \<le> rnd 655.35"
    and "rnd 655.35 \<le> 13107 / 20 + 1 / 1000000"
    by simp_all
qed

lemma encode_value:
  assumes r: "rounds_to_double rnd" and "0 \<le> v" and "v \<le> 100"
  defines "n \<equiv> lround (rnd (of_int v * rnd 655.35))"
  shows "0 \<le> n" and "n < 65536"
    and "\<bar>of_int n - of_int v * rnd 655.35\<bar> \<le> 5001 / 10000"
proof -
  define c where "c = rnd 655.35"
  define a where "a = (of_int v :: rat)"
  have c: "13107 / 20 - 1 / 1000000 \<le> c" "c \<le> 13107 / 20 + 1 / 1000000"
    using rnd_constant [OF r] by (simp_all add: c_def)
  have a: "0 \<le> a" "a \<le> 100" using assms by (simp_all add: a_def)
  have hi: "a * c \<le> a * (13107 / 20 + 1 / 1000000)"
    using c(2) a(1) by (rule mult_left_mono)
  have ac0: "0 \<le> a * c"
    using a(1) c(1) by (intro mult_nonneg_nonneg) simp_all
  have ac1: "a * c \<le> 65535 + 1 / 10000"
    using hi a(2) by (simp add: algebra_simps)
  have range: "a * c = 0 \<or> 1 / 1000 \<le> \<bar>a * c\<bar> \<and> \<bar>a * c\<bar> \<le> 1000000"
  proof (cases "v = 0")
    case True
    then show ?thesis by (simp add: a_def)
  next
    case False
    with assms have "1 \<le> v" by simp
    then have "1 \<le> a" by (simp add: a_def)
    moreover have "0 \<le> c" using c(1) by simp
    ultimately have "1 * c \<le> a * c" by (rule mult_right_mono)
    with c(1) have "1 / 1000 \<le> a * c" by linarith
    moreover have "a * c \<le> 1000000" using ac1 by linarith
    ultimately show ?thesis using ac0 by simp
  qed
  have p: "\<bar>rnd (a * c) - a * c\<bar> \<le> 1 / 10000"
    using rnd_close [OF r range] ac0 ac1 by simp
  have b: "(of_int n :: rat) \<le> rnd (a * c) + 1 / 2" "rnd (a * c) - 1 / 2 \<le> of_int n"
    using lround_bounds [of "rnd (a * c)"] by (simp_all add: n_def a_def c_def)
  have "\<bar>of_int n - a * c\<bar> \<le> 5001 / 10000" using b p by linarith
  then show "\<bar>of_int n - of_int v * rnd 655.35\<bar> \<le> 5001 / 10000"
    by (simp only: a_def c_def)
  have "(- 1 :: rat) < of_int n" using b(2) p ac0 by linarith
  then show "0 \<le> n" by linarith
  have "(of_int n :: rat) < 65536" using b(1) p ac1 by linarith
  then show "n < 65536" by linarith
qed

lemma decode_value:
  assumes r: "rounds_to_double rnd" and "0 \<le> v" and "v \<le> 100" and "0 \<le> n"
    and d: "\<bar>of_int n - of_int v * rnd 655.35\<bar> \<le> 5001 / 10000"
  shows "lround (rnd (of_int n / rnd 655.35)) = v"
proof (rule lround_unique)
  define c where "c = rnd 655.35"
  define a where "a = (of_int v :: rat)"
  define q where "q = of_int n / c"
  define t where "t = \<bar>q - a\<bar>"
  have c655: "655 \<le> c" and c656: "c \<le> 656"
    using rnd_constant [OF r] by (simp_all add: c_def)
  then have cpos: "0 < c" by simp
  have a: "0 \<le> a" "a \<le> 100" using assms by (simp_all add: a_def)
  have "(q - a) * c = of_int n - a * c" using cpos by (simp add: q_def algebra_simps)
  then have "\<bar>(q - a) * c\<bar> \<le> 5001 / 10000" using d by (simp only: a_def c_def)
  moreover have "\<bar>(q - a) * c\<bar> = t * c"
    using cpos by (simp only: abs_mult abs_of_pos t_def)
  ultimately have tc: "t * c \<le> 5001 / 10000" by (simp only:)
  have t0: "0 \<le> t" by (simp add: t_def)
  have "t * 655 \<le> t * c" using c655 t0 by (rule mult_left_mono)
  with tc have "t \<le> 1 / 1000" by linarith
  then have qa: "\<bar>q - a\<bar> \<le> 1 / 1000" by (simp only: t_def)
  then have q101: "\<bar>q\<bar> \<le> 101" using a by linarith
  have range: "q = 0 \<or> 1 / 1000 \<le> \<bar>q\<bar> \<and> \<bar>q\<bar> \<le> 1000000"
  proof (cases "n = 0")
    case True
    then show ?thesis by (simp add: q_def)
  next
    case False
    with assms(4) have "1 \<le> n" by simp
    then have "(1 :: rat) \<le> of_int n" by simp
    then have "1 / c \<le> q" using cpos by (simp add: q_def divide_right_mono)
    moreover have "1 / 656 \<le> 1 / c" using c656 cpos by (simp add: frac_le)
    ultimately have "1 / 1000 \<le> q" by simp
    with q101 show ?thesis by simp
  qed
  have "\<bar>rnd q - q\<bar> \<le> 1 / 1000"
    using rnd_close [OF r range] q101 by linarith
  with qa have "\<bar>rnd q - a\<bar> < 1 / 2" by linarith
  then show "\<bar>rnd (of_int n / rnd 655.35) - of_int v\<bar> < 1 / 2"
    by (simp only: q_def c_def a_def)
qed

lemma MAKELONG_low: "(ucast (MAKELONG a b) :: 16 word) = word_of_int a"
  unfolding MAKELONG_def
  by (rule bit_word_eqI) (auto simp: bit_simps)

lemma MAKELONG_high: "(ucast (drop_bit 16 (MAKELONG a b)) :: 16 word) = word_of_int b"
  unfolding MAKELONG_def
  by (rule bit_word_eqI) (auto simp: bit_simps)

lemma mask_low: "(w :: 32 word) AND 0xFFFF = ucast (ucast w :: 16 word)"
proof -
  have "w AND mask 16 = ucast (ucast w :: 16 word)"
    by (rule bit_word_eqI) (auto simp: bit_simps)
  then show ?thesis by (simp add: mask_eq_exp_minus_1)
qed

lemma uint_low: "0 \<le> n \<Longrightarrow> n < 65536 \<Longrightarrow> uint (MAKELONG n b AND 0xFFFF) = n"
  by (simp add: mask_low MAKELONG_low unsigned_ucast_eq uint_word_of_int_eq take_bit_int_eq_self)

text \<open>
  C10. For every integer volume \<open>v\<close> with \<open>0 \<le> v \<le> 100\<close>, and however the arithmetic of
  doubles rounds within its relative error, decoding the encoded volume yields \<open>v\<close> again,
  and the encoded \<open>DWORD\<close> carries the same 16-bit value, the rounded \<open>v * 655.35\<close>, in its
  low and in its high half.
\<close>

theorem winmm_volume_roundtrip:
  assumes "rounds_to_double rnd" and "0 \<le> v" and "v \<le> 100"
  shows "winmm_volume_decode rnd (winmm_volume_encode rnd v) = v \<and>
         (ucast (winmm_volume_encode rnd v) :: 16 word) =
           ucast (drop_bit 16 (winmm_volume_encode rnd v)) \<and>
         uint (ucast (winmm_volume_encode rnd v) :: 16 word) =
           lround (rnd (of_int v * rnd 655.35))"
proof -
  let ?n = "lround (rnd (of_int v * rnd 655.35))"
  note n = encode_value [OF assms]
  have "winmm_volume_decode rnd (winmm_volume_encode rnd v) =
      lround (rnd (of_int ?n / rnd 655.35))"
    using n(1,2) by (simp add: winmm_volume_decode_def winmm_volume_encode_def Let_def uint_low)
  also have "\<dots> = v"
    using assms n(1,3) by (rule decode_value)
  finally have "winmm_volume_decode rnd (winmm_volume_encode rnd v) = v" .
  moreover have "(ucast (winmm_volume_encode rnd v) :: 16 word) =
      ucast (drop_bit 16 (winmm_volume_encode rnd v))"
    by (simp add: winmm_volume_encode_def Let_def MAKELONG_low MAKELONG_high)
  moreover have "uint (ucast (winmm_volume_encode rnd v) :: 16 word) = ?n"
    using n(1,2)
    by (simp add: winmm_volume_encode_def Let_def MAKELONG_low uint_word_of_int_eq
        take_bit_int_eq_self)
  ultimately show ?thesis by simp
qed

theorem winmm_volume_roundtrip_witness:
  "rounds_to_double (\<lambda>x. x) \<and> (0::int) \<le> 50 \<and> (50::int) \<le> 100 \<and>
   winmm_volume_encode (\<lambda>x. x) 50 = 0x80008000 \<and>
   winmm_volume_decode (\<lambda>x. x) (winmm_volume_encode (\<lambda>x. x) 50) = 50"
proof -
  have r: "rounds_to_double (\<lambda>x. x)" by (simp add: rounds_to_double_def)
  from winmm_volume_roundtrip [OF r, of 50] r show ?thesis
    by (simp add: winmm_volume_encode_def lround_def MAKELONG_def)
qed

section \<open>What each operation calls\<close>

text \<open>
  Every operation appends its calls to those of the session and leaves the other fields as they are.
\<close>

lemma emit_fields [simp]:
  "calls (emit cs encoder) = calls encoder @ cs"
  "quality (emit cs encoder) = quality encoder"
  "bitrate (emit cs encoder) = bitrate encoder"
  "audio_format (emit cs encoder) = audio_format encoder"
  by (simp_all add: emit_def)

lemma emit_emit [simp]: "emit cs (emit bs encoder) = emit (bs @ cs) encoder"
  by (simp add: emit_def)

lemma flushpackets_emit: "flushpackets encoder ps = emit (flushpacket_calls ps) encoder"
  by (induction ps arbitrary: encoder) simp_all

lemma blockout_emit: "vorbis_encoder_blockout encoder d = emit (blockout_calls d) encoder"
  by (induction d arbitrary: encoder) (simp_all add: flushpackets_emit)

lemma headerout_emit:
  "vorbis_encoder_headerout encoder vc =
     emit [Vorbis_analysis_headerout vc, Stream_PacketIn Identification_header,
       Stream_PacketIn (Comment_header vc), Stream_PacketIn Codebooks_header] encoder"
  by (simp add: vorbis_encoder_headerout_def vorbis_analysis_headerout_def)

lemma copy_tag_append:
  "copy_tag_to_vorbis_comment names vc tag =
     vc @ map (\<lambda>item. (g_ascii_strup (names (item_type item)), item_value item)) tag"
  by (induction tag arbitrary: vc) (simp_all add: vorbis_comment_add_tag_def)

lemma tag_emit:
  "vorbis_encoder_tag names encoder tag random =
     (True, emit [Stream_Reinitialize random,
        Vorbis_analysis_headerout (copy_tag_to_vorbis_comment names vorbis_comment_init tag),
        Stream_PacketIn Identification_header,
        Stream_PacketIn (Comment_header (copy_tag_to_vorbis_comment names vorbis_comment_init tag)),
        Stream_PacketIn Codebooks_header] encoder)"
  by (simp add: vorbis_encoder_tag_def Let_def headerout_emit)

lemma pre_tag_emit:
  "vorbis_encoder_pre_tag encoder d =
     (True, emit (Vorbis_analysis_wrote 0 # blockout_calls d @
        [Vorbis_block_clear, Vorbis_dsp_clear, Vorbis_analysis_init, Vorbis_block_init,
         Stream_Flush]) encoder)"
  by (simp add: vorbis_encoder_pre_tag_def Let_def blockout_emit)

lemma flush_emit: "vorbis_encoder_flush encoder = (True, emit [Stream_Flush] encoder)"
  by (simp add: vorbis_encoder_flush_def)

lemma read_emit: "vorbis_encoder_read encoder len n = (n, emit [Stream_PageOut len] encoder)"
  by (simp add: vorbis_encoder_read_def)

lemma close_emit:
  "vorbis_encoder_close encoder =
     emit [Stream_Deinitialize, Vorbis_block_clear, Vorbis_dsp_clear, Vorbis_info_clear] encoder"
  by (simp add: vorbis_encoder_close_def vorbis_encoder_clear_def)

lemma write_emit:
  assumes "vorbis_encoder_write encoder data len d = Inr (ok, encoder')"
  shows "\<exists>vals dest. ok \<and> encoder' =
           emit (Vorbis_analysis_buffer vals # Pcm_store dest # Vorbis_analysis_wrote vals #
                 blockout_calls d) encoder"
  using assms
  by (auto simp: vorbis_encoder_write_def Let_def blockout_emit split: if_splits sum.splits)

lemma open_emit:
  "vorbis_encoder_open encoder af rc random =
     (let af1 = af\<lparr>format := SAMPLE_FORMAT_FLOAT\<rparr>;
          init = (if fp_greater_eq (quality encoder) (Number (- 1))
                  then Vorbis_encode_init_vbr (channels af) (sample_rate af)
                         (fp_times (quality encoder) (Number 0.1))
                  else Vorbis_encode_init (channels af) (sample_rate af) (bitrate encoder * 1000))
      in if 0 \<noteq> rc
         then (False, af1,
               emit [Vorbis_info_init, init, Vorbis_info_clear] (encoder\<lparr>audio_format := af1\<rparr>))
         else (True, af1,
               emit [Vorbis_info_init, init, Vorbis_analysis_init, Vorbis_block_init,
                     Stream_Initialize random, Vorbis_analysis_headerout [],
                     Stream_PacketIn Identification_header, Stream_PacketIn (Comment_header []),
                     Stream_PacketIn Codebooks_header] (encoder\<lparr>audio_format := af1\<rparr>)))"
  by (simp add: vorbis_encoder_open_def vorbis_encoder_reinit_def Let_def
      vorbis_encoder_send_header_def headerout_emit vorbis_comment_init_def)

lemma submitted_append [simp]: "submitted (cs @ ds) = submitted cs @ submitted ds"
  by (induction cs rule: submitted.induct) simp_all

lemma submitted_flushpacket_calls [simp]:
  "submitted (flushpacket_calls ps) = map Audio_packet ps"
  by (induction ps) simp_all

lemma submitted_blockout_calls [simp]:
  "submitted (blockout_calls d) = map Audio_packet (concat d)"
  by (induction d) simp_all

lemma writes_info_flushpacket_calls [simp]: "filter writes_info (flushpacket_calls ps) = []"
  by (induction ps) simp_all

lemma writes_info_blockout_calls [simp]: "filter writes_info (blockout_calls d) = []"
  by (induction d) simp_all

lemma blockout_calls_not_Nil [simp]: "blockout_calls d \<noteq> []"
  by (cases d) simp_all

lemma last_blockout_calls [simp]: "last (blockout_calls d) = Vorbis_analysis_blockout False"
  by (induction d) simp_all

section \<open>The concrete sessions\<close>

lemma plain_strtod_examples:
  "plain_strtod ''5'' = (Number 5, [])"
  "plain_strtod ''5.5'' = (Number (11 / 2), [])"
  "plain_strtod ''11'' = (Number 11, [])"
  "plain_strtod ''abc'' = (Number 0, ''abc'')"
  "plain_strtod ''nan'' = (NaN, [])"
  by (simp_all add: plain_strtod_def unsigned_decimal_def is_digit_def digits_value_def)

lemma g_ascii_strup_title: "g_ascii_strup ''title'' = ''TITLE''"
  by code_simp

lemma example_session_eq:
  "example_session =
     \<lparr>quality = Number 5, bitrate = 0,
      audio_format = stereo\<lparr>format := SAMPLE_FORMAT_FLOAT\<rparr>,
      calls = [Vorbis_info_init, Vorbis_encode_init_vbr 2 44100 (Number (1 / 2)),
        Vorbis_analysis_init, Vorbis_block_init, Stream_Initialize 7,
        Vorbis_analysis_headerout [], Stream_PacketIn Identification_header,
        Stream_PacketIn (Comment_header []), Stream_PacketIn Codebooks_header]\<rparr>"
  by (simp add: example_session_def open_emit Let_def new_encoder_def stereo_def emit_def)

lemma example_open:
  "vorbis_encoder_open (new_encoder\<lparr>quality := Number 5\<rparr>) stereo 0 7 =
     (True, stereo\<lparr>format := SAMPLE_FORMAT_FLOAT\<rparr>, example_session)"
  by (simp add: example_session_eq open_emit Let_def new_encoder_def stereo_def emit_def)

lemma mono_session_eq:
  "mono_session =
     \<lparr>quality = Number 5, bitrate = 0, audio_format = mono,
      calls = [Vorbis_info_init, Vorbis_encode_init_vbr 1 44100 (Number (1 / 2)),
        Vorbis_analysis_init, Vorbis_block_init, Stream_Initialize 7,
        Vorbis_analysis_headerout [], Stream_PacketIn Identification_header,
        Stream_PacketIn (Comment_header []), Stream_PacketIn Codebooks_header]\<rparr>"
  by (simp add: mono_session_def open_emit Let_def new_encoder_def mono_def emit_def)

lemma example_session_open: "open_session example_session"
  by (simp add: example_session_eq open_session_def stereo_def)

lemma planar_example: "planar [1, 2, 3, 4, 5] 2 2 = [[1, 3], [2, 4]]"
  by code_simp

section \<open>The logical streams of a session\<close>

lemma logical_streams_append:
  "logical_streams (cs @ ds) = foldl stream_call (logical_streams cs) ds"
  by (simp add: logical_streams_def)

lemma stream_call_flushpacket_calls:
  "foldl stream_call ss (flushpacket_calls ps) =
     (case ss of [] \<Rightarrow> [] | (serial, qs) # ss' \<Rightarrow> (serial, qs @ map Audio_packet ps) # ss')"
proof (induction ps arbitrary: ss)
  case Nil
  then show ?case by (simp split: list.splits)
next
  case (Cons p ps)
  then show ?case by (cases ss) (auto split: list.splits)
qed

lemma stream_call_blockout_calls:
  "foldl stream_call ss (blockout_calls d) =
     (case ss of [] \<Rightarrow> []
      | (serial, qs) # ss' \<Rightarrow> (serial, qs @ map Audio_packet (concat d)) # ss')"
proof (induction d arbitrary: ss)
  case Nil
  then show ?case by (simp split: list.splits)
next
  case (Cons b d)
  then show ?case by (cases ss) (auto simp: stream_call_flushpacket_calls split: list.splits)
qed

lemma headers_first_append:
  "headers_first ps \<Longrightarrow> list_all is_audio qs \<Longrightarrow> headers_first (ps @ qs)"
  by (induction ps rule: headers_first.induct) simp_all

lemma map_fst_quiet:
  "map fst (case ss of [] \<Rightarrow> [] | (serial, qs) # ss' \<Rightarrow> (serial, f qs) # ss') = map fst ss"
  by (cases ss) auto

lemma streams_quiet:
  assumes "list_all (\<lambda>s. headers_first (snd s)) ss"
  shows "list_all (\<lambda>s. headers_first (snd s))
           (case ss of [] \<Rightarrow> []
            | (serial, qs) # ss' \<Rightarrow> (serial, qs @ map Audio_packet audio) # ss')"
proof (cases ss)
  case Nil
  then show ?thesis by simp
next
  case (Cons s ss')
  have "list_all is_audio (map Audio_packet audio)"
    by (induction audio) simp_all
  with assms Cons show ?thesis
    by (cases s) (simp add: headers_first_append)
qed

lemma open_streams:
  assumes "vorbis_encoder_open encoder af rc random = (True, af', encoder')"
  shows "logical_streams (calls encoder') =
           (random, [Identification_header, Comment_header [], Codebooks_header]) #
           logical_streams (calls encoder)"
  using assms
  by (auto simp: open_emit Let_def logical_streams_append split: if_splits)

lemma step_serial_history:
  assumes "step names encoder x = Inr encoder'"
  shows "serial_history (calls encoder') = serial_history (calls encoder) @ tag_serials [x]"
proof (cases x)
  case (Write data len d)
  with assms obtain ok where "vorbis_encoder_write encoder data len d = Inr (ok, encoder')"
    by (auto split: sum.splits)
  from write_emit [OF this] show ?thesis
    using Write
    by (auto simp: serial_history_def logical_streams_append stream_call_blockout_calls
        map_fst_quiet)
next
  case Flush
  with assms show ?thesis
    by (auto simp: flush_emit serial_history_def logical_streams_append)
next
  case (PreTag d)
  with assms show ?thesis
    by (auto simp: pre_tag_emit serial_history_def logical_streams_append
        stream_call_blockout_calls map_fst_quiet split: list.splits)
next
  case (UpdateTag tag random)
  with assms show ?thesis
    by (auto simp: tag_emit serial_history_def logical_streams_append)
next
  case (Read len n)
  with assms show ?thesis
    by (auto simp: read_emit serial_history_def logical_streams_append)
next
  case Close
  with assms show ?thesis
    by (auto simp: close_emit serial_history_def logical_streams_append)
qed

lemma tag_serials_append: "tag_serials (xs @ ys) = tag_serials xs @ tag_serials ys"
  by (induction xs rule: tag_serials.induct) simp_all

lemma run_serial_history:
  "run names encoder xs = Inr encoder' \<Longrightarrow>
     serial_history (calls encoder') = serial_history (calls encoder) @ tag_serials xs"
proof (induction xs arbitrary: encoder)
  case Nil
  then show ?case by simp
next
  case (Cons x xs)
  then obtain e1 where s: "step names encoder x = Inr e1" and r: "run names e1 xs = Inr encoder'"
    by (auto split: sum.splits)
  have "tag_serials (x # xs) = tag_serials [x] @ tag_serials xs"
    using tag_serials_append [of "[x]" xs] by simp
  with Cons.IH [OF r] step_serial_history [OF s] show ?case by simp
qed

lemma step_headers_first:
  assumes "step names encoder x = Inr encoder'" and "streams_headers_first (calls encoder)"
  shows "streams_headers_first (calls encoder')"
proof (cases x)
  case (Write data len d)
  with assms obtain ok where "vorbis_encoder_write encoder data len d = Inr (ok, encoder')"
    by (auto split: sum.splits)
  from write_emit [OF this] assms(2) show ?thesis
    by (auto simp: streams_headers_first_def logical_streams_append stream_call_blockout_calls
        streams_quiet)
next
  case Flush
  with assms show ?thesis
    by (auto simp: flush_emit streams_headers_first_def logical_streams_append)
next
  case (PreTag d)
  with assms(1) have "logical_streams (calls encoder') =
      (case logical_streams (calls encoder) of [] \<Rightarrow> []
       | (serial, qs) # ss' \<Rightarrow> (serial, qs @ map Audio_packet (concat d)) # ss')"
    by (auto simp: pre_tag_emit logical_streams_append stream_call_blockout_calls
        split: list.splits)
  with assms(2) show ?thesis
    by (simp add: streams_headers_first_def streams_quiet)
next
  case (UpdateTag tag random)
  with assms show ?thesis
    by (auto simp: tag_emit streams_headers_first_def logical_streams_append)
next
  case (Read len n)
  with assms show ?thesis
    by (auto simp: read_emit streams_headers_first_def logical_streams_append)
next
  case Close
  with assms show ?thesis
    by (auto simp: close_emit streams_headers_first_def logical_streams_append)
qed

lemma run_headers_first:
  "run names encoder xs = Inr encoder' \<Longrightarrow> streams_headers_first (calls encoder) \<Longrightarrow>
     streams_headers_first (calls encoder')"
proof (induction xs arbitrary: encoder)
  case Nil
  then show ?case by simp
next
  case (Cons x xs)
  then obtain e1 where s: "step names encoder x = Inr e1" and r: "run names e1 xs = Inr encoder'"
    by (auto split: sum.splits)
  from Cons.IH [OF r step_headers_first [OF s Cons.prems(2)]] show ?case .
qed

lemma example_run_final:
  "\<exists>final. run (\<lambda>t. ''title'') example_session example_run = Inr final \<and>
     logical_streams (calls final) =
       [(8, [Identification_header, Comment_header [(''TITLE'', ''x'')], Codebooks_header]),
        (7, [Identification_header, Comment_header [], Codebooks_header,
             Audio_packet [1, 2], Audio_packet [3], Audio_packet [9]])]"
proof -
  have "map_sum id (logical_streams \<circ> calls)
          (run (\<lambda>t. ''title'') example_session example_run) =
        Inr [(8, [Identification_header, Comment_header [(''TITLE'', ''x'')], Codebooks_header]),
             (7, [Identification_header, Comment_header [], Codebooks_header,
                  Audio_packet [1, 2], Audio_packet [3], Audio_packet [9]])]"
    by code_simp
  then show ?thesis
    by (cases "run (\<lambda>t. ''title'') example_session example_run") auto
qed

section \<open>The lifecycle of a session\<close>

text \<open>
  A successful open leaves the session in the state Streaming, every operation but the
  close keeps it there, and the close ends it.
\<close>

lemma live_append:
  "live r (cs @ ds) = foldl (\<lambda>held c. (held \<or> acquires r c) \<and> \<not> releases r c) (live r cs) ds"
  by (simp add: live_def)

lemma live_flushpacket_calls:
  "foldl (\<lambda>held c. (held \<or> acquires r c) \<and> \<not> releases r c) b (flushpacket_calls ps) = b"
  by (induction ps) (cases r; simp)+

lemma live_blockout_calls:
  "foldl (\<lambda>held c. (held \<or> acquires r c) \<and> \<not> releases r c) b (blockout_calls d) = b"
  by (induction d) (cases r; simp add: live_flushpacket_calls)+

lemma tag_streaming:
  assumes "streaming encoder"
  shows "streaming (snd (vorbis_encoder_tag names encoder tag random))"
  using assms
  by (simp add: streaming_def tag_emit live_append logical_streams_append)

lemma pre_tag_live:
  "live r (calls (snd (vorbis_encoder_pre_tag encoder d))) =
     (if r = Analysis_state \<or> r = Block_buffer then True else live r (calls encoder))"
  by (cases r) (simp_all add: pre_tag_emit live_append live_blockout_calls)

lemma pre_tag_streaming:
  assumes "streaming encoder"
  shows "streaming (snd (vorbis_encoder_pre_tag encoder d))"
proof -
  obtain s ss where l: "logical_streams (calls encoder) = s # ss" and h: "headers_first (snd s)"
    using assms by (auto simp: streaming_def split: list.splits)
  obtain serial ps where s: "s = (serial, ps)" by (cases s)
  have "list_all is_audio (map Audio_packet (concat d))"
    by (induction "concat d" arbitrary: d) (simp_all add: list_all_iff)
  with h s have "headers_first (ps @ map Audio_packet (concat d))"
    by (simp add: headers_first_append)
  then have "case logical_streams (calls (snd (vorbis_encoder_pre_tag encoder d))) of
      [] \<Rightarrow> False | s # ss \<Rightarrow> headers_first (snd s)"
    using l s
    by (simp add: pre_tag_emit logical_streams_append stream_call_blockout_calls)
  with assms show ?thesis
    by (simp add: streaming_def pre_tag_live)
qed

lemma open_streaming:
  assumes "vorbis_encoder_open encoder0 af rc random = (True, af', encoder)"
  shows "streaming encoder"
proof -
  have "live r (calls encoder)" for r
    using assms
    by (cases r) (auto simp: open_emit Let_def live_append split: if_splits)
  then show ?thesis
    using open_streams [OF assms] by (simp add: streaming_def)
qed

lemma current_stream_drained:
  assumes "case ss of [] \<Rightarrow> False | s # ss' \<Rightarrow> headers_first (snd s)"
  shows "case foldl stream_call ss (blockout_calls d) of
           [] \<Rightarrow> False
         | s # ss' \<Rightarrow> headers_first (snd s)"
proof -
  from assms obtain serial ps ss' where ss: "ss = (serial, ps) # ss'" and h: "headers_first ps"
    by (cases ss) auto
  have "list_all is_audio (map Audio_packet (concat d))"
    by (simp add: list_all_iff)
  with h have "headers_first (ps @ map Audio_packet (concat d))"
    by (simp add: headers_first_append)
  with ss show ?thesis by (simp add: stream_call_blockout_calls)
qed

lemma write_streaming:
  assumes "vorbis_encoder_write encoder data len d = Inr (ok, encoder')" and "streaming encoder"
  shows "streaming encoder'"
proof -
  from write_emit [OF assms(1)] obtain vals dest where e: "encoder' =
      emit (Vorbis_analysis_buffer vals # Pcm_store dest # Vorbis_analysis_wrote vals #
            blockout_calls d) encoder"
    by blast
  have "live r (calls encoder') = live r (calls encoder)" for r
    by (cases r) (simp_all add: e live_append live_blockout_calls)
  moreover have "case logical_streams (calls encoder') of
      [] \<Rightarrow> False | s # ss \<Rightarrow> headers_first (snd s)"
    using assms(2) current_stream_drained [of "logical_streams (calls encoder)" d]
    by (simp add: e streaming_def logical_streams_append)
  ultimately show ?thesis using assms(2) by (simp add: streaming_def)
qed

lemma close_not_streaming: "\<not> streaming (vorbis_encoder_close encoder)"
  by (simp add: streaming_def close_emit live_append)

lemma step_streaming:
  assumes "step names encoder x = Inr encoder'" and "x \<noteq> Close" and "streaming encoder"
  shows "streaming encoder'"
proof (cases x)
  case (Write data len d)
  with assms(1) obtain ok where "vorbis_encoder_write encoder data len d = Inr (ok, encoder')"
    by (auto split: sum.splits)
  from write_streaming [OF this assms(3)] show ?thesis .
next
  case Flush
  with assms(1,3) show ?thesis
    by (auto simp: flush_emit streaming_def live_append logical_streams_append)
next
  case (PreTag d)
  with assms(1) pre_tag_streaming [OF assms(3)] show ?thesis by auto
next
  case (UpdateTag tag random)
  with assms(1) tag_streaming [OF assms(3)] show ?thesis by auto
next
  case (Read len n)
  with assms(1,3) show ?thesis
    by (auto simp: read_emit streaming_def live_append logical_streams_append)
next
  case Close
  with assms(2) show ?thesis by simp
qed

lemma example_session_streaming: "streaming example_session"
  using open_streaming [OF example_open] .

section \<open>The tag update\<close>

text \<open>
  C1. The claim as amended. \<open>vorbis_encoder_tag\<close> returns true and makes exactly these calls:
  it restarts the container stream with the random identifier drawn for it, has the
  three header packets built from the comment fields of the new tag (each the upper-cased
  name of the item's type with the item's text), and submits the identification, the
  comment and the codebooks header in this order; a session that was in the state
  Streaming is in it again afterwards. Its one call on the codec,
  \<open>vorbis_analysis_headerout\<close>, builds the headers: none of its calls is one of the four
  that reset the codec state (\<open>vorbis_block_clear\<close>, \<open>vorbis_dsp_clear\<close>,
  \<open>vorbis_analysis_init\<close>, \<open>vorbis_block_init\<close>). That reset is the work of
  \<open>vorbis_encoder_pre_tag\<close>: when that runs first, the reset, the restart and the headers
  follow one another in the order of the claim, and the session is in the state Streaming
  again.
\<close>

theorem tag_restarts_stream_and_sends_headers:
  "(let vc = map (\<lambda>item. (g_ascii_strup (names (item_type item)), item_value item)) tag;
        restart = [Stream_Reinitialize random, Vorbis_analysis_headerout vc,
                   Stream_PacketIn Identification_header, Stream_PacketIn (Comment_header vc),
                   Stream_PacketIn Codebooks_header]
    in vorbis_encoder_tag names encoder tag random =
         (True, encoder\<lparr>calls := calls encoder @ restart\<rparr>) \<and>
       filter resets_codec restart = [] \<and>
       vorbis_encoder_tag names (snd (vorbis_encoder_pre_tag encoder d)) tag random =
         (True, encoder\<lparr>calls := calls encoder @
            Vorbis_analysis_wrote 0 # blockout_calls d @
            [Vorbis_block_clear, Vorbis_dsp_clear, Vorbis_analysis_init, Vorbis_block_init,
             Stream_Flush] @ restart\<rparr>) \<and>
       (streaming encoder \<longrightarrow>
          streaming (snd (vorbis_encoder_tag names encoder tag random)) \<and>
          streaming (snd (vorbis_encoder_tag names (snd (vorbis_encoder_pre_tag encoder d))
                            tag random))))"
proof -
  have "streaming encoder \<longrightarrow>
          streaming (snd (vorbis_encoder_tag names encoder tag random)) \<and>
          streaming (snd (vorbis_encoder_tag names (snd (vorbis_encoder_pre_tag encoder d))
                            tag random))"
    using tag_streaming pre_tag_streaming by blast
  then show ?thesis
    by (simp add: tag_emit pre_tag_emit copy_tag_append vorbis_comment_init_def Let_def emit_def)
qed

theorem tag_restarts_stream_and_sends_headers_witness:
  "vorbis_encoder_tag (\<lambda>t. ''title'') example_session example_tag 8 =
     (True, example_session\<lparr>calls := calls example_session @
        [Stream_Reinitialize 8, Vorbis_analysis_headerout [(''TITLE'', ''x'')],
         Stream_PacketIn Identification_header,
         Stream_PacketIn (Comment_header [(''TITLE'', ''x'')]),
         Stream_PacketIn Codebooks_header]\<rparr>) \<and>
   streaming example_session \<and>
   streaming (snd (vorbis_encoder_tag (\<lambda>t. ''title'') example_session example_tag 8)) \<and>
   streaming (snd (vorbis_encoder_tag (\<lambda>t. ''title'')
                (snd (vorbis_encoder_pre_tag example_session [])) example_tag 8))"
proof -
  note t = tag_restarts_stream_and_sends_headers
    [of "\<lambda>t. ''title''" example_tag 8 example_session "[]"]
  from t have "vorbis_encoder_tag (\<lambda>t. ''title'') example_session example_tag 8 =
     (True, example_session\<lparr>calls := calls example_session @
        [Stream_Reinitialize 8, Vorbis_analysis_headerout [(''TITLE'', ''x'')],
         Stream_PacketIn Identification_header,
         Stream_PacketIn (Comment_header [(''TITLE'', ''x'')]),
         Stream_PacketIn Codebooks_header]\<rparr>)"
    by (simp add: Let_def example_tag_def g_ascii_strup_title)
  moreover from t have "streaming example_session \<longrightarrow>
      streaming (snd (vorbis_encoder_tag (\<lambda>t. ''title'') example_session example_tag 8)) \<and>
      streaming (snd (vorbis_encoder_tag (\<lambda>t. ''title'')
                   (snd (vorbis_encoder_pre_tag example_session [])) example_tag 8))"
    unfolding Let_def by blast
  ultimately show ?thesis using example_session_streaming by blast
qed

text \<open>
  The claim as the spec states it fails: among the calls that \<open>vorbis_encoder_tag\<close> adds
  to an open session none resets the codec state, while \<open>vorbis_encoder_pre_tag\<close> adds
  the four of them.
\<close>

theorem tag_resets_codec_counterexample:
  "filter resets_codec
     (drop (length (calls example_session))
        (calls (snd (vorbis_encoder_tag (\<lambda>t. ''title'') example_session example_tag 8)))) = [] \<and>
   filter resets_codec
     (drop (length (calls example_session))
        (calls (snd (vorbis_encoder_pre_tag example_session [])))) =
     [Vorbis_block_clear, Vorbis_dsp_clear, Vorbis_analysis_init, Vorbis_block_init]"
  by (simp add: tag_emit pre_tag_emit)

section \<open>Header packets come first\<close>

text \<open>
  C2. A session is opened and then runs any operations. Every logical stream of the
  container stream, the one that \<open>vorbis_encoder_open\<close> begins and each one that a tag update
  begins, starts with the identification, the comment and the codebooks header, in this
  order, and every packet submitted to it after them is an audio packet. The calls are only
  ever appended, so at no moment does an audio packet of a logical stream come before one
  of its headers. There is one logical stream for the open and one for each tag update.
\<close>

theorem headers_precede_audio:
  assumes "streams_headers_first (calls encoder0)"
    and "vorbis_encoder_open encoder0 af rc random = (True, af', encoder)"
    and "run names encoder xs = Inr encoder'"
  shows "streams_headers_first (calls encoder) \<and> streams_headers_first (calls encoder') \<and>
         length (logical_streams (calls encoder')) =
           length (logical_streams (calls encoder0)) + 1 + length (tag_serials xs)"
proof -
  have o: "streams_headers_first (calls encoder)"
    using assms(1) open_streams [OF assms(2)] by (simp add: streams_headers_first_def)
  have "length (serial_history (calls encoder')) =
      length (serial_history (calls encoder)) + length (tag_serials xs)"
    using run_serial_history [OF assms(3)] by simp
  then have "length (logical_streams (calls encoder')) =
      length (logical_streams (calls encoder0)) + 1 + length (tag_serials xs)"
    using open_streams [OF assms(2)] by (simp add: serial_history_def)
  with o run_headers_first [OF assms(3) o] show ?thesis by simp
qed

theorem headers_precede_audio_witness:
  "\<exists>final. run (\<lambda>t. ''title'') example_session example_run = Inr final \<and>
     streams_headers_first (calls final) \<and>
     logical_streams (calls final) =
       [(8, [Identification_header, Comment_header [(''TITLE'', ''x'')], Codebooks_header]),
        (7, [Identification_header, Comment_header [], Codebooks_header,
             Audio_packet [1, 2], Audio_packet [3], Audio_packet [9]])]"
proof -
  from example_run_final obtain final
    where r: "run (\<lambda>t. ''title'') example_session example_run = Inr final"
      and l: "logical_streams (calls final) =
       [(8, [Identification_header, Comment_header [(''TITLE'', ''x'')], Codebooks_header]),
        (7, [Identification_header, Comment_header [], Codebooks_header,
             Audio_packet [1, 2], Audio_packet [3], Audio_packet [9]])]"
    by blast
  have n: "streams_headers_first (calls (new_encoder\<lparr>quality := Number 5\<rparr>))"
    by (simp add: new_encoder_def streams_headers_first_def logical_streams_def)
  from headers_precede_audio [OF n example_open r] r l show ?thesis by blast
qed

section \<open>Configuration\<close>

text \<open>
  C3. The claim as amended. With a quality and a bitrate both set, the configuration
  fails with \<open>ConflictingMode\<close> when the quality passes its own check (it is read to its end
  and is neither below -1 nor above 10), and with \<open>InvalidQuality\<close> otherwise: the quality
  is checked first. With neither set it fails with \<open>MissingMode\<close>.
\<close>

theorem configure_both_or_neither:
  "(config_get_block_string param ''quality'' = Some qv \<and>
    config_get_block_string param ''bitrate'' = Some bv \<longrightarrow>
      vorbis_encoder_configure to_float strtod strtoll encoder param =
        Inl (if snd (strtod qv) = [] \<and>
                \<not> fp_less (to_float (fst (strtod qv))) (Number (- 1)) \<and>
                \<not> fp_less (Number 10) (to_float (fst (strtod qv)))
             then ConflictingMode else InvalidQuality)) \<and>
   (config_get_block_string param ''quality'' = None \<and>
    config_get_block_string param ''bitrate'' = None \<longrightarrow>
      vorbis_encoder_configure to_float strtod strtoll encoder param = Inl MissingMode)"
  by (auto simp: vorbis_encoder_configure_def Let_def split: prod.splits)

theorem configure_both_or_neither_witness:
  "vorbis_encoder_configure (\<lambda>x. x) plain_strtod plain_strtoll new_encoder
     [''quality'' \<mapsto> ''5'', ''bitrate'' \<mapsto> ''128''] = Inl ConflictingMode \<and>
   vorbis_encoder_configure (\<lambda>x. x) plain_strtod plain_strtoll new_encoder
     [''quality'' \<mapsto> ''11'', ''bitrate'' \<mapsto> ''128''] = Inl InvalidQuality \<and>
   vorbis_encoder_configure (\<lambda>x. x) plain_strtod plain_strtoll new_encoder Map.empty =
     Inl MissingMode"
  using
    configure_both_or_neither [of "[''quality'' \<mapsto> ''5'', ''bitrate'' \<mapsto> ''128'']" "''5''"
      "''128''" "\<lambda>x. x" plain_strtod plain_strtoll new_encoder]
    configure_both_or_neither [of "[''quality'' \<mapsto> ''11'', ''bitrate'' \<mapsto> ''128'']" "''11''"
      "''128''" "\<lambda>x. x" plain_strtod plain_strtoll new_encoder]
    configure_both_or_neither [of Map.empty "''5''" "''128''" "\<lambda>x. x" plain_strtod
      plain_strtoll new_encoder]
  by (simp add: config_get_block_string_def plain_strtod_examples)

text \<open>
  The claim as the spec states it fails: with the quality \<open>abc\<close> and the bitrate \<open>128\<close>
  the failure is \<open>InvalidQuality\<close>.
\<close>

theorem configure_both_counterexample:
  "vorbis_encoder_configure (\<lambda>x. x) plain_strtod plain_strtoll new_encoder
     [''quality'' \<mapsto> ''abc'', ''bitrate'' \<mapsto> ''128''] = Inl InvalidQuality \<and>
   vorbis_encoder_configure (\<lambda>x. x) plain_strtod plain_strtoll new_encoder
     [''quality'' \<mapsto> ''abc'', ''bitrate'' \<mapsto> ''128''] \<noteq> Inl ConflictingMode"
  by (simp add: vorbis_encoder_configure_def config_get_block_string_def plain_strtod_examples)

text \<open>
  C4. The code at the failing input. A quality that \<open>g_ascii_strtod\<close> reads to its end
  as a NaN, with no bitrate set, passes both comparisons of the range check: the
  configuration succeeds and stores the NaN, and \<open>vorbis_encoder_reinit\<close> will then take
  the constant-bitrate branch with the bitrate the session was allocated with.
\<close>

theorem configure_accepts_nan:
  "config_get_block_string param ''quality'' = Some qv \<and>
   config_get_block_string param ''bitrate'' = None \<and>
   snd (strtod qv) = [] \<and> to_float (fst (strtod qv)) = NaN \<longrightarrow>
     vorbis_encoder_configure to_float strtod strtoll encoder param =
       Inr (encoder\<lparr>quality := NaN\<rparr>) \<and>
     encoding_mode (encoder\<lparr>quality := NaN\<rparr>) = ConstantBitrate (bitrate encoder)"
  by (auto simp: vorbis_encoder_configure_def encoding_mode_def Let_def split: prod.splits)

theorem configure_accepts_nan_witness:
  "vorbis_encoder_configure (\<lambda>x. x) plain_strtod plain_strtoll new_encoder
     [''quality'' \<mapsto> ''nan''] = Inr (new_encoder\<lparr>quality := NaN\<rparr>) \<and>
   encoding_mode (new_encoder\<lparr>quality := NaN\<rparr>) = ConstantBitrate 0"
  using configure_accepts_nan [of "[''quality'' \<mapsto> ''nan'']" "''nan''" plain_strtod "\<lambda>x. x"
      plain_strtoll new_encoder]
  by (simp add: config_get_block_string_def plain_strtod_examples new_encoder_def)

text \<open>
  On numbers the configuration does what the claim says: a quality read to its end as a
  number \<open>q\<close> with \<open>-1 \<le> q \<le> 10\<close>, with no bitrate set, is stored and selects the
  variable-quality mode; a quality not read to its end, or read as a number below -1 or
  above 10, fails with \<open>InvalidQuality\<close>. The numbers are those of the field, after the
  conversion to \<open>float\<close>.
\<close>

lemma configure_quality:
  "config_get_block_string param ''quality'' = Some qv \<longrightarrow>
     (config_get_block_string param ''bitrate'' = None \<and> snd (strtod qv) = [] \<and>
      to_float (fst (strtod qv)) = Number q \<and> - 1 \<le> q \<and> q \<le> 10 \<longrightarrow>
        vorbis_encoder_configure to_float strtod strtoll encoder param =
          Inr (encoder\<lparr>quality := Number q\<rparr>) \<and>
        encoding_mode (encoder\<lparr>quality := Number q\<rparr>) = VariableQuality (Number q)) \<and>
     (snd (strtod qv) \<noteq> [] \<or>
      (\<exists>r. to_float (fst (strtod qv)) = Number r \<and> (r < - 1 \<or> 10 < r)) \<longrightarrow>
        vorbis_encoder_configure to_float strtod strtoll encoder param = Inl InvalidQuality)"
  by (auto simp: vorbis_encoder_configure_def encoding_mode_def Let_def split: prod.splits)

lemma configure_quality_examples:
  "vorbis_encoder_configure (\<lambda>x. x) plain_strtod plain_strtoll new_encoder
     [''quality'' \<mapsto> ''5.5''] = Inr (new_encoder\<lparr>quality := Number (11 / 2)\<rparr>) \<and>
   encoding_mode (new_encoder\<lparr>quality := Number (11 / 2)\<rparr>) =
     VariableQuality (Number (11 / 2)) \<and>
   vorbis_encoder_configure (\<lambda>x. x) plain_strtod plain_strtoll new_encoder
     [''quality'' \<mapsto> ''11''] = Inl InvalidQuality \<and>
   vorbis_encoder_configure (\<lambda>x. x) plain_strtod plain_strtoll new_encoder
     [''quality'' \<mapsto> ''abc''] = Inl InvalidQuality"
  using
    configure_quality [of "[''quality'' \<mapsto> ''5.5'']" "''5.5''" plain_strtod "\<lambda>x. x" "11 / 2"
      plain_strtoll new_encoder]
    configure_quality [of "[''quality'' \<mapsto> ''11'']" "''11''" plain_strtod "\<lambda>x. x" 0
      plain_strtoll new_encoder]
    configure_quality [of "[''quality'' \<mapsto> ''abc'']" "''abc''" plain_strtod "\<lambda>x. x" 0
      plain_strtoll new_encoder]
  by (simp add: config_get_block_string_def plain_strtod_examples)

section \<open>The identifier of the container stream\<close>

text \<open>
  C5. The claim as amended. A session is opened and then runs any operations (write,
  flush, preTag, updateTag, read, close). The identifiers that the container stream has
  had are those it had before, the random one drawn at the open, and then one for each tag
  update of the run, in the order of the run, each the random value drawn for that update:
  a tag update assigns the identifier once and no other operation assigns it. The
  identifier at the end is the one of the last tag update, or the one of the open when
  the run has no tag update.
\<close>

theorem serial_assigned_once_per_tag:
  assumes "vorbis_encoder_open encoder0 af rc random = (True, af', encoder)"
    and "run names encoder xs = Inr encoder'"
  shows "serial_history (calls encoder') =
           serial_history (calls encoder0) @ random # tag_serials xs \<and>
         last (serial_history (calls encoder')) = last (random # tag_serials xs)"
  using run_serial_history [OF assms(2)] open_streams [OF assms(1)]
  by (simp add: serial_history_def)

theorem serial_assigned_once_per_tag_witness:
  "\<exists>final. run (\<lambda>t. ''title'') example_session example_run = Inr final \<and>
     tag_serials example_run = [8] \<and> serial_history (calls final) = [7, 8] \<and>
     last (serial_history (calls final)) = 8"
proof -
  from example_run_final obtain final
    where r: "run (\<lambda>t. ''title'') example_session example_run = Inr final"
    by blast
  have t: "tag_serials example_run = [8]" by (simp add: example_run_def)
  have n: "serial_history (calls (new_encoder\<lparr>quality := Number 5\<rparr>)) = []"
    by (simp add: new_encoder_def serial_history_def logical_streams_def)
  from serial_assigned_once_per_tag [OF example_open r] r t n show ?thesis by simp
qed

text \<open>
  The claim as the spec states it fails: an assignment need not be a change. In a session
  opened with the identifier 7, a tag update for which the random source returns 7 again
  leaves the identifier as it was.
\<close>

theorem serial_unchanged_counterexample:
  "serial_history (calls example_session) = [7] \<and>
   run (\<lambda>t. ''title'') example_session [UpdateTag example_tag 7] =
     Inr (snd (vorbis_encoder_tag (\<lambda>t. ''title'') example_session example_tag 7)) \<and>
   serial_history (calls (snd (vorbis_encoder_tag (\<lambda>t. ''title'') example_session example_tag 7))) =
     [7, 7]"
  by (simp add: example_session_eq tag_emit serial_history_def logical_streams_def)

section \<open>Before a tag\<close>

text \<open>
  C6. \<open>vorbis_encoder_pre_tag\<close> returns true and makes exactly these calls: it reports 0
  frames to the analysis, drains the codec until \<open>vorbis_analysis_blockout\<close> has no further
  block, submitting every packet the codec hands out to the container stream, in order;
  it then clears the block and the analysis state and initialises both again; and its last
  call flushes the container stream. None of its calls writes the model descriptor \<open>vi\<close>.
\<close>

theorem pre_tag_drains_and_resets:
  "vorbis_encoder_pre_tag encoder d =
     (True, encoder\<lparr>calls := calls encoder @
        Vorbis_analysis_wrote 0 # blockout_calls d @
        [Vorbis_block_clear, Vorbis_dsp_clear, Vorbis_analysis_init, Vorbis_block_init,
         Stream_Flush]\<rparr>) \<and>
   submitted (blockout_calls d) = map Audio_packet (concat d) \<and>
   last (blockout_calls d) = Vorbis_analysis_blockout False \<and>
   filter writes_info (calls (snd (vorbis_encoder_pre_tag encoder d))) =
     filter writes_info (calls encoder)"
  by (simp add: pre_tag_emit emit_def)

theorem pre_tag_drains_and_resets_witness:
  "vorbis_encoder_pre_tag example_session [[[9]]] =
     (True, example_session\<lparr>calls := calls example_session @
        [Vorbis_analysis_wrote 0, Vorbis_analysis_blockout True, Vorbis_analysis,
         Vorbis_bitrate_addblock, Vorbis_bitrate_flushpacket (Some (Audio_packet [9])),
         Stream_PacketIn (Audio_packet [9]), Vorbis_bitrate_flushpacket None,
         Vorbis_analysis_blockout False, Vorbis_block_clear, Vorbis_dsp_clear,
         Vorbis_analysis_init, Vorbis_block_init, Stream_Flush]\<rparr>)"
  using pre_tag_drains_and_resets [of example_session "[[[9]]]"] by simp

section \<open>Opening\<close>

text \<open>
  C7. Whatever the session and the audio format of the caller, and whether the codec
  accepts them or not, after \<open>vorbis_encoder_open\<close> the caller's descriptor is the one it
  passed with the sample format set to float: its channel count and its sample rate are
  unchanged, and the format stored in the session equals it.
\<close>

theorem open_forces_float:
  assumes "vorbis_encoder_open encoder af rc random = (ok, af', encoder')"
  shows "af' = af\<lparr>format := SAMPLE_FORMAT_FLOAT\<rparr> \<and> format af' = SAMPLE_FORMAT_FLOAT \<and>
         channels af' = channels af \<and> sample_rate af' = sample_rate af \<and>
         audio_format encoder' = af'"
  using assms by (auto simp: open_emit Let_def split: if_splits)

theorem open_forces_float_witness:
  "vorbis_encoder_open (new_encoder\<lparr>quality := Number 5\<rparr>) stereo 0 7 =
     (True, stereo\<lparr>format := SAMPLE_FORMAT_FLOAT\<rparr>, example_session) \<and>
   format stereo = SAMPLE_FORMAT_S16 \<and>
   format (stereo\<lparr>format := SAMPLE_FORMAT_FLOAT\<rparr>) = SAMPLE_FORMAT_FLOAT \<and>
   channels (stereo\<lparr>format := SAMPLE_FORMAT_FLOAT\<rparr>) = 2 \<and>
   sample_rate (stereo\<lparr>format := SAMPLE_FORMAT_FLOAT\<rparr>) = 44100 \<and>
   audio_format example_session = stereo\<lparr>format := SAMPLE_FORMAT_FLOAT\<rparr>"
  using open_forces_float [OF example_open] example_open by (simp add: stereo_def)

section \<open>Writing\<close>

subsection \<open>The two loops\<close>

lemma channels_loop_ok:
  assumes "length dest = ch" and "\<forall>k<ch. length (dest ! k) = F" and "i < F" and "j \<le> ch"
    and "ch - j \<le> length src"
  shows "\<exists>dest'. channels_loop dest src i j ch = Inr (dest', drop (ch - j) src) \<and>
           length dest' = ch \<and> (\<forall>k<ch. length (dest' ! k) = F) \<and>
           (\<forall>k<ch. \<forall>i'<F. dest' ! k ! i' =
              (if i' = i \<and> j \<le> k then src ! (k - j) else dest ! k ! i'))"
  using assms
proof (induction "ch - j" arbitrary: j dest src)
  case 0
  then show ?case by (simp add: channels_loop.simps)
next
  case (Suc n)
  then have j: "j < ch" by simp
  with Suc.prems obtain x src' where src: "src = x # src'" by (cases src) auto
  let ?dest1 = "dest[j := (dest ! j)[i := x]]"
  have n: "n = ch - Suc j" using Suc.hyps(2) by simp
  have sh: "length ?dest1 = ch" "\<forall>k<ch. length (?dest1 ! k) = F"
    using Suc.prems(1,2) j by (auto simp: nth_list_update)
  have a: "Suc j \<le> ch" using j by simp
  have b: "ch - Suc j \<le> length src'" using Suc.prems(5) src by simp
  from Suc.hyps(1) [OF n sh Suc.prems(3) a b]
  obtain dest' where d: "channels_loop ?dest1 src' i (Suc j) ch = Inr (dest', drop (ch - Suc j) src')"
    "length dest' = ch" "\<forall>k<ch. length (dest' ! k) = F"
    "\<forall>k<ch. \<forall>i'<F. dest' ! k ! i' =
       (if i' = i \<and> Suc j \<le> k then src' ! (k - Suc j) else ?dest1 ! k ! i')"
    by auto
  have "ch - j = Suc (ch - Suc j)" using j by simp
  then have "drop (ch - j) src = drop (ch - Suc j) src'" using src by simp
  then have "channels_loop dest src i j ch = Inr (dest', drop (ch - j) src)"
    using j src d(1) Suc.prems(1,2,3)
    by (subst channels_loop.simps) simp
  moreover have "\<forall>k<ch. \<forall>i'<F. dest' ! k ! i' =
       (if i' = i \<and> j \<le> k then src ! (k - j) else dest ! k ! i')"
    using d(4) src j Suc.prems(1,2,3)
    by (auto simp: nth_list_update nth_Cons' not_less_eq_eq)
  ultimately show ?case using d(2,3) by blast
qed

lemma frames_loop_ok:
  assumes "length dest = ch" and "\<forall>k<ch. length (dest ! k) = F" and "i \<le> F"
    and "(F - i) * ch \<le> length src"
  shows "\<exists>dest'. frames_loop dest src i F ch = Inr (dest', drop ((F - i) * ch) src) \<and>
           length dest' = ch \<and> (\<forall>k<ch. length (dest' ! k) = F) \<and>
           (\<forall>k<ch. \<forall>i'<F. dest' ! k ! i' =
              (if i \<le> i' then src ! ((i' - i) * ch + k) else dest ! k ! i'))"
  using assms
proof (induction "F - i" arbitrary: i dest src)
  case 0
  then show ?case by (simp add: frames_loop.simps)
next
  case (Suc n)
  then have i: "i < F" by simp
  have n: "n = F - Suc i" using Suc.hyps(2) by simp
  have "F - i = Suc (F - Suc i)" using i by simp
  then have split: "(F - i) * ch = ch + (F - Suc i) * ch" by simp
  then have ch: "ch - 0 \<le> length src" using Suc.prems(4) by simp
  have z: "0 \<le> ch" by simp
  from channels_loop_ok [OF Suc.prems(1,2) i z ch]
  obtain dest1 where d1: "channels_loop dest src i 0 ch = Inr (dest1, drop ch src)"
    "length dest1 = ch" "\<forall>k<ch. length (dest1 ! k) = F"
    "\<forall>k<ch. \<forall>i'<F. dest1 ! k ! i' = (if i' = i then src ! k else dest ! k ! i')"
    by auto
  have len: "(F - Suc i) * ch \<le> length (drop ch src)"
    using Suc.prems(4) split by simp
  have si: "Suc i \<le> F" using i by simp
  from Suc.hyps(1) [OF n d1(2,3) si len]
  obtain dest' where d: "frames_loop dest1 (drop ch src) (Suc i) F ch =
       Inr (dest', drop ((F - Suc i) * ch) (drop ch src))"
    "length dest' = ch" "\<forall>k<ch. length (dest' ! k) = F"
    "\<forall>k<ch. \<forall>i'<F. dest' ! k ! i' =
       (if Suc i \<le> i' then drop ch src ! ((i' - Suc i) * ch + k) else dest1 ! k ! i')"
    by auto
  have "frames_loop dest src i F ch = Inr (dest', drop ((F - i) * ch) src)"
    using i d1(1) d(1) split
    by (subst frames_loop.simps) (simp add: add.commute)
  moreover have "\<forall>k<ch. \<forall>i'<F. dest' ! k ! i' =
       (if i \<le> i' then src ! ((i' - i) * ch + k) else dest ! k ! i')"
  proof (intro allI impI)
    fix k i'
    assume k: "k < ch" and i': "i' < F"
    show "dest' ! k ! i' = (if i \<le> i' then src ! ((i' - i) * ch + k) else dest ! k ! i')"
    proof (cases "Suc i \<le> i'")
      case True
      then have "i' - i = Suc (i' - Suc i)" by simp
      then have "(i' - i) * ch = ch + (i' - Suc i) * ch" by simp
      moreover have "ch \<le> length src" using ch by simp
      ultimately show ?thesis
        using d(4) k i' True by (simp add: add.assoc)
    next
      case False
      then show ?thesis using d(4) d1(4) k i' by auto
    qed
  qed
  ultimately show ?case using d(2,3) by blast
qed

lemma channels_loop_no_load:
  assumes "ch - j \<le> length src"
  shows "channels_loop dest src i j ch \<noteq> Inl Load_out_of_buffer \<and>
         (\<forall>dest' src'. channels_loop dest src i j ch = Inr (dest', src') \<longrightarrow>
            src' = drop (ch - j) src)"
  using assms
proof (induction dest src i j ch rule: channels_loop.induct)
  case (1 dest src i j num_channels)
  show ?case
  proof (cases "j < num_channels")
    case False
    then show ?thesis by (simp add: channels_loop.simps)
  next
    case True
    with "1.prems" obtain x src' where src: "src = x # src'" by (cases src) auto
    have d: "num_channels - j = Suc (num_channels - Suc j)" using True by simp
    show ?thesis
    proof (cases "j < length dest \<and> i < length (dest ! j)")
      case False
      with True src show ?thesis by (subst channels_loop.simps, subst (2) channels_loop.simps) auto
    next
      case ok: True
      have "num_channels - Suc j \<le> length src'" using "1.prems" src d by simp
      from "1.IH" [OF True src ok this] True src ok d show ?thesis
        by (subst channels_loop.simps, subst (2) channels_loop.simps) simp
    qed
  qed
qed

lemma frames_loop_no_load:
  assumes "(F - i) * ch \<le> length src"
  shows "frames_loop dest src i F ch \<noteq> Inl Load_out_of_buffer"
  using assms
proof (induction dest src i F ch rule: frames_loop.induct)
  case (1 dest src i num_frames num_channels)
  show ?case
  proof (cases "i < num_frames")
    case False
    then show ?thesis by (simp add: frames_loop.simps)
  next
    case True
    then have d: "num_frames - i = Suc (num_frames - Suc i)" by simp
    then have c: "num_channels - 0 \<le> length src" using "1.prems" by simp
    note cl = channels_loop_no_load [OF c, of dest i]
    show ?thesis
    proof (cases "channels_loop dest src i 0 num_channels")
      case (Inl f)
      with cl True show ?thesis by (subst frames_loop.simps) auto
    next
      case (Inr r)
      obtain dest' src' where r: "r = (dest', src')" by (cases r)
      with Inr cl have s: "src' = drop num_channels src" by simp
      have "(num_frames - Suc i) * num_channels \<le> length src'"
        using "1.prems" d s by simp
      from "1.IH" [OF True Inr r [symmetric] this] True Inr r show ?thesis
        by (subst frames_loop.simps) simp
    qed
  qed
qed

lemma interleaved_ok:
  assumes "unat num_frames * unat num_channels \<le> length data"
  shows "interleaved_to_vorbis_buffer
           (replicate (unat num_channels) (replicate (unat num_frames) 0)) data
           num_frames num_channels =
         Inr (planar data (unat num_channels) (unat num_frames))"
proof -
  let ?ch = "unat num_channels" and ?F = "unat num_frames"
  let ?buffer = "replicate ?ch (replicate ?F (0 :: sample))"
  have sh: "length ?buffer = ?ch" "\<forall>k<?ch. length (?buffer ! k) = ?F" by simp_all
  have z: "0 \<le> ?F" by simp
  have l: "(?F - 0) * ?ch \<le> length data" using assms by simp
  from frames_loop_ok [OF sh z l]
  obtain dest' where d: "frames_loop ?buffer data 0 ?F ?ch = Inr (dest', drop ((?F - 0) * ?ch) data)"
    "length dest' = ?ch" "\<forall>k<?ch. length (dest' ! k) = ?F"
    "\<forall>k<?ch. \<forall>i'<?F. dest' ! k ! i' = data ! (i' * ?ch + k)"
    by auto
  have "dest' = planar data ?ch ?F"
  proof (rule nth_equalityI)
    show "length dest' = length (planar data ?ch ?F)" using d(2) by (simp add: planar_def)
  next
    fix k
    assume "k < length dest'"
    then have k: "k < ?ch" using d(2) by simp
    show "dest' ! k = planar data ?ch ?F ! k"
    proof (rule nth_equalityI)
      show "length (dest' ! k) = length (planar data ?ch ?F ! k)"
        using d(3) k by (simp add: planar_def)
    next
      fix i'
      assume "i' < length (dest' ! k)"
      then have "i' < ?F" using d(3) k by simp
      then show "dest' ! k ! i' = planar data ?ch ?F ! k ! i'"
        using d(4) k by (simp add: planar_def)
    qed
  qed
  with d(1) show ?thesis by (simp add: interleaved_to_vorbis_buffer_def)
qed

subsection \<open>The frame count\<close>

lemma unat_channels_32 [simp]: "unat (ucast (c :: 8 word) :: 32 word) = unat c"
proof -
  have "unat c < 2 ^ 8" using unsigned_less [of c] by simp
  then have "unat c < 2 ^ 32" by simp
  then show ?thesis by (simp add: unsigned_ucast_eq take_bit_nat_eq_self)
qed

lemma unat_frame_size_64 [simp]: "unat (ucast (w :: 32 word) :: 64 word) = unat w"
proof -
  have "unat w < 2 ^ 32" using unsigned_less [of w] by simp
  then have "unat w < 2 ^ 64" by simp
  then show ?thesis by (simp add: unsigned_ucast_eq take_bit_nat_eq_self)
qed

lemma frame_size_open:
  assumes "open_session encoder"
  shows "unat (audio_format_frame_size (audio_format encoder)) =
           4 * unat (channels (audio_format encoder))"
    and "audio_format_frame_size (audio_format encoder) \<noteq> 0"
proof -
  let ?c = "channels (audio_format encoder)"
  have c: "unat ?c < 2 ^ 8" using unsigned_less [of ?c] by simp
  have "unat (4 * (ucast ?c :: 32 word)) = 4 * unat ?c"
    using c by (simp add: unat_word_ariths)
  with assms show u: "unat (audio_format_frame_size (audio_format encoder)) = 4 * unat ?c"
    by (simp add: audio_format_frame_size_def sample_format_size_def open_session_def)
  have "unat ?c \<noteq> 0" using assms by (simp add: open_session_def unat_eq_0)
  with u show "audio_format_frame_size (audio_format encoder) \<noteq> 0"
    by (metis mult_is_0 unat_0 zero_neq_numeral)
qed

lemma num_frames_small:
  fixes q :: "64 word"
  assumes "unat q < 2 ^ 31"
  shows "unat (ucast q :: 32 word) = unat q" and "sint (ucast q :: 32 word) = int (unat q)"
proof -
  have "unat q < 2 ^ 32" using assms by (rule less_le_trans) simp
  then show "unat (ucast q :: 32 word) = unat q"
    by (simp add: unsigned_ucast_eq take_bit_nat_eq_self)
  have "int (unat q) < 2 ^ 31"
    using assms by (simp only: flip: of_nat_less_iff [where 'a = int]) simp
  then have u: "uint q < 2 ^ 31" by simp
  have "(0::int) \<le> 2 ^ 31" by simp
  then have "- (2 ^ 31) \<le> uint q" using uint_nonnegative [of q] by linarith
  from this u have "signed_take_bit 31 (uint q) = uint q"
    by (rule signed_take_bit_int_eq_self)
  then show "sint (ucast q :: 32 word) = int (unat q)"
    by (simp add: signed_ucast_eq)
qed

lemma num_frames_le:
  fixes q :: "64 word"
  shows "unat (ucast q :: 32 word) \<le> unat q"
  by (simp add: unsigned_ucast_eq take_bit_eq_mod)

lemma frames_fit:
  assumes "length data = n div 4" and "0 < ch" and "F \<le> n div (4 * ch)"
  shows "F * ch \<le> length data"
proof -
  have "F * ch \<le> (n div (4 * ch)) * ch" using assms(3) by simp
  also have "\<dots> = ((n div 4) div ch) * ch" by (simp add: div_mult2_eq)
  also have "\<dots> \<le> n div 4" by simp
  finally show ?thesis using assms(1) by simp
qed

lemma write_ok:
  assumes "open_session encoder" and "buffer_of data len"
    and "unat len div (4 * unat (channels (audio_format encoder))) < 2 ^ 31"
  shows "vorbis_encoder_write encoder data len d =
           Inr (True,
             emit (Vorbis_analysis_buffer
                     (int (unat len div (4 * unat (channels (audio_format encoder))))) #
                   Pcm_store (planar data (unat (channels (audio_format encoder)))
                     (unat len div (4 * unat (channels (audio_format encoder))))) #
                   Vorbis_analysis_wrote
                     (int (unat len div (4 * unat (channels (audio_format encoder))))) #
                   blockout_calls d) encoder)"
proof -
  let ?af = "audio_format encoder"
  let ?ch = "unat (channels ?af)"
  let ?F = "unat len div (4 * ?ch)"
  let ?q = "len div ucast (audio_format_frame_size ?af)"
  note fs = frame_size_open [OF assms(1)]
  have q: "unat ?q = ?F" by (simp add: unat_div fs(1))
  with assms(3) have small: "unat ?q < 2 ^ 31" by simp
  note nf = num_frames_small [OF small]
  have ch: "0 < ?ch" using assms(1) by (simp add: open_session_def unat_gt_0)
  have fit: "?F * ?ch \<le> length data"
    using frames_fit [of data "unat len" ?ch ?F] assms(2) ch by (simp add: buffer_of_def)
  have "unat (ucast ?q :: 32 word) * unat (ucast (channels ?af) :: 32 word) \<le> length data"
    using fit nf(1) q by simp
  from interleaved_ok [OF this]
  have "interleaved_to_vorbis_buffer (vorbis_analysis_buffer ?af (sint (ucast ?q :: 32 word)))
          data (ucast ?q) (ucast (channels ?af)) = Inr (planar data ?ch ?F)"
    using nf q by (simp add: vorbis_analysis_buffer_def)
  then show ?thesis
    using fs(2) nf q by (simp add: vorbis_encoder_write_def Let_def blockout_emit)
qed

lemma write_no_load:
  assumes "open_session encoder" and "buffer_of data len"
  shows "vorbis_encoder_write encoder data len d \<noteq> Inl Load_out_of_buffer"
proof -
  let ?af = "audio_format encoder"
  let ?ch = "unat (channels ?af)"
  let ?q = "len div ucast (audio_format_frame_size ?af)"
  let ?F = "unat (ucast ?q :: 32 word)"
  note fs = frame_size_open [OF assms(1)]
  have q: "unat ?q = unat len div (4 * ?ch)" by (simp add: unat_div fs(1))
  have ch: "0 < ?ch" using assms(1) by (simp add: open_session_def unat_gt_0)
  have "?F \<le> unat len div (4 * ?ch)" using num_frames_le [of ?q] q by simp
  from frames_fit [OF _ ch this, of data] assms(2)
  have "(?F - 0) * ?ch \<le> length data" by (simp add: buffer_of_def)
  from frames_loop_no_load [OF this]
  have "interleaved_to_vorbis_buffer (vorbis_analysis_buffer ?af (sint (ucast ?q :: 32 word)))
          data (ucast ?q) (ucast (channels ?af)) \<noteq> Inl Load_out_of_buffer"
    by (auto simp: interleaved_to_vorbis_buffer_def split: sum.splits)
  then show ?thesis
    using fs(2) by (auto simp: vorbis_encoder_write_def Let_def split: sum.splits)
qed

subsection \<open>The narrowed frame count\<close>

text \<open>
  The quotient of the byte length by the frame size is narrowed to the 32 bits of
  \<open>num_frames\<close>, and read as an \<open>int\<close> by the codec: from \<open>2^31\<close> on it is negative there, and
  the buffers of the codec have no room.
\<close>

lemma sint_small:
  fixes w :: "32 word"
  assumes "unat w < 2 ^ 31"
  shows "sint w = int (unat w)"
proof -
  have "int (unat w) < 2 ^ 31"
    using assms by (simp only: flip: of_nat_less_iff [where 'a = int]) simp
  then have u: "uint w < 2 ^ 31" by simp
  have "(0::int) \<le> 2 ^ 31" by simp
  then have "- (2 ^ 31) \<le> uint w" using uint_nonnegative [of w] by linarith
  from this u have "signed_take_bit 31 (uint w) = uint w"
    by (rule signed_take_bit_int_eq_self)
  then show ?thesis by (simp add: sint_uint)
qed

lemma sint_large:
  fixes w :: "32 word"
  assumes "\<not> unat w < 2 ^ 31"
  shows "nat (sint w) = 0"
proof -
  have "\<not> int (unat w) < 2 ^ 31"
    using assms by (simp only: flip: of_nat_less_iff [where 'a = int]) simp
  then have u: "2 ^ 31 \<le> uint w" by simp
  have "uint w < 2 ^ 32" using uint_bounded [of w] by simp
  with u have "uint w div 2 ^ 31 = 1"
  proof -
    define k where "k = uint w"
    have "2147483648 \<le> k" "k < 4294967296"
      using u \<open>uint w < 2 ^ 32\<close> by (simp_all add: k_def)
    then have "k div 2147483648 = 1" by linarith
    then show ?thesis by (simp add: k_def)
  qed
  then have "bit (uint w) 31" by (simp add: bit_iff_odd)
  then have "sint w < 0" by (simp add: sint_uint)
  then show ?thesis by simp
qed

lemma unat_narrowed:
  fixes q :: "64 word"
  shows "unat (ucast q :: 32 word) = unat q mod 2 ^ 32"
  by (simp add: unsigned_ucast_eq take_bit_eq_mod)

lemma num_frames_narrowed:
  assumes "open_session encoder"
  shows "unat (ucast (len div ucast (audio_format_frame_size (audio_format encoder))) :: 32 word) =
           unat (len :: 64 word) div (4 * unat (channels (audio_format encoder))) mod 2 ^ 32"
proof -
  note fs = frame_size_open [OF assms]
  have "unat (len div ucast (audio_format_frame_size (audio_format encoder))) =
          unat len div (4 * unat (channels (audio_format encoder)))"
    by (simp add: unat_div fs(1))
  then show ?thesis by (simp add: unat_narrowed)
qed

lemma write_ok_narrowed:
  assumes "open_session encoder"
    and "unat len div (4 * unat (channels (audio_format encoder))) mod 2 ^ 32 < 2 ^ 31"
    and "unat len div (4 * unat (channels (audio_format encoder))) mod 2 ^ 32 *
           unat (channels (audio_format encoder)) \<le> length data"
  shows "vorbis_encoder_write encoder data len d =
           Inr (True,
             emit (Vorbis_analysis_buffer
                     (int (unat len div (4 * unat (channels (audio_format encoder))) mod 2 ^ 32)) #
                   Pcm_store (planar data (unat (channels (audio_format encoder)))
                     (unat len div (4 * unat (channels (audio_format encoder))) mod 2 ^ 32)) #
                   Vorbis_analysis_wrote
                     (int (unat len div (4 * unat (channels (audio_format encoder))) mod 2 ^ 32)) #
                   blockout_calls d) encoder)"
proof -
  let ?af = "audio_format encoder"
  let ?ch = "unat (channels ?af)"
  let ?F = "unat len div (4 * ?ch) mod 2 ^ 32"
  let ?n = "ucast (len div ucast (audio_format_frame_size ?af)) :: 32 word"
  note fs = frame_size_open [OF assms(1)]
  note n = num_frames_narrowed [OF assms(1), of len]
  with assms(2) have "unat ?n < 2 ^ 31" by simp
  from sint_small [OF this] n have s: "sint ?n = int ?F" by simp
  have "unat ?n * unat (ucast (channels ?af) :: 32 word) \<le> length data"
    using assms(3) n by simp
  from interleaved_ok [OF this]
  have "interleaved_to_vorbis_buffer (vorbis_analysis_buffer ?af (sint ?n))
          data ?n (ucast (channels ?af)) = Inr (planar data ?ch ?F)"
    using n s by (simp add: vorbis_analysis_buffer_def)
  then show ?thesis
    using fs(2) n s by (simp add: vorbis_encoder_write_def Let_def blockout_emit)
qed

lemma frames_loop_no_room:
  assumes "0 < F" and "0 < ch"
  shows "frames_loop (replicate ch []) src 0 F ch =
           Inl (if src = [] then Load_out_of_buffer else Store_out_of_buffer)"
proof -
  from assms(2) have "channels_loop (replicate ch []) src 0 0 ch =
      Inl (if src = [] then Load_out_of_buffer else Store_out_of_buffer)"
    by (subst channels_loop.simps) (cases src, simp_all)
  with assms(1) show ?thesis by (subst frames_loop.simps) simp
qed

lemma write_no_room:
  assumes "open_session encoder"
    and "\<not> unat len div (4 * unat (channels (audio_format encoder))) mod 2 ^ 32 < 2 ^ 31"
  shows "vorbis_encoder_write encoder data len d =
           Inl (if data = [] then Load_out_of_buffer else Store_out_of_buffer)"
proof -
  let ?af = "audio_format encoder"
  let ?ch = "unat (channels ?af)"
  let ?F = "unat len div (4 * ?ch) mod 2 ^ 32"
  let ?n = "ucast (len div ucast (audio_format_frame_size ?af)) :: 32 word"
  note fs = frame_size_open [OF assms(1)]
  note n = num_frames_narrowed [OF assms(1), of len]
  with assms(2) have big: "\<not> unat ?n < 2 ^ 31" by simp
  from sint_large [OF this] have s: "nat (sint ?n) = 0" .
  have F0: "0 < ?F"
  proof (rule ccontr)
    assume "\<not> 0 < ?F"
    then have "?F = 0" by simp
    with assms(2) show False by simp
  qed
  have ch: "0 < ?ch" using assms(1) by (simp add: open_session_def unat_gt_0)
  from frames_loop_no_room [OF F0 ch, of data]
  have "interleaved_to_vorbis_buffer (vorbis_analysis_buffer ?af (sint ?n))
          data ?n (ucast (channels ?af)) =
        Inl (if data = [] then Load_out_of_buffer else Store_out_of_buffer)"
    using n s by (simp add: interleaved_to_vorbis_buffer_def vorbis_analysis_buffer_def)
  then show ?thesis
    using fs(2) by (simp add: vorbis_encoder_write_def Let_def)
qed

lemma buffer_fits:
  assumes "buffer_of data len"
  shows "unat len div (4 * ch) mod 2 ^ 32 * ch \<le> length data"
proof (cases "ch = 0")
  case True
  then show ?thesis by simp
next
  case False
  then have ch: "0 < ch" by simp
  have "unat len div (4 * ch) mod 2 ^ 32 \<le> unat len div (4 * ch)" by simp
  from frames_fit [OF _ ch this, of data] assms show ?thesis by (simp add: buffer_of_def)
qed

lemma write_division_by_zero:
  assumes "channels (audio_format encoder) = 0"
  shows "vorbis_encoder_write encoder data len d = Inl Division_by_zero"
  using assms by (simp add: vorbis_encoder_write_def audio_format_frame_size_def)

lemma channels_loop_returns:
  assumes "channels_loop dest src i j ch = Inr r"
  shows "ch - j \<le> length src"
  using assms
proof (induction dest src i j ch rule: channels_loop.induct)
  case (1 dest src i j num_channels)
  show ?case
  proof (cases "j < num_channels")
    case False
    then show ?thesis by simp
  next
    case True
    with "1.prems" obtain x src' where src: "src = x # src'"
      by (subst (asm) channels_loop.simps) (cases src, auto)
    from "1.prems" True src have ok: "j < length dest \<and> i < length (dest ! j)"
      by (subst (asm) channels_loop.simps) (auto split: if_splits)
    from "1.prems" True src ok
    have "channels_loop (dest[j := (dest ! j)[i := x]]) src' i (Suc j) num_channels = Inr r"
      by (subst (asm) channels_loop.simps) simp
    from "1.IH" [OF True src ok this] src True show ?thesis by simp
  qed
qed

lemma frames_loop_returns:
  assumes "frames_loop dest src i F ch = Inr r"
  shows "(F - i) * ch \<le> length src"
  using assms
proof (induction dest src i F ch rule: frames_loop.induct)
  case (1 dest src i num_frames num_channels)
  show ?case
  proof (cases "i < num_frames")
    case False
    then show ?thesis by simp
  next
    case True
    with "1.prems" obtain dest' src'
      where c: "channels_loop dest src i 0 num_channels = Inr (dest', src')"
        and f: "frames_loop dest' src' (Suc i) num_frames num_channels = Inr r"
      by (subst (asm) frames_loop.simps) (auto split: sum.splits)
    from channels_loop_returns [OF c] have l: "num_channels \<le> length src" by simp
    then have "num_channels - 0 \<le> length src" by simp
    from channels_loop_no_load [OF this, of dest i] c
    have s: "src' = drop num_channels src" by simp
    from "1.IH" [OF True c refl f] s
    have "(num_frames - Suc i) * num_channels \<le> length src - num_channels" by simp
    moreover have "num_frames - i = Suc (num_frames - Suc i)" using True by simp
    ultimately show ?thesis using l by simp
  qed
qed

lemma write_returns:
  assumes "format (audio_format encoder) = SAMPLE_FORMAT_FLOAT"
    and "vorbis_encoder_write encoder data len d = Inr r"
  shows "channels (audio_format encoder) \<noteq> 0 \<and>
         unat len div (4 * unat (channels (audio_format encoder))) mod 2 ^ 32 < 2 ^ 31 \<and>
         unat len div (4 * unat (channels (audio_format encoder))) mod 2 ^ 32 *
           unat (channels (audio_format encoder)) \<le> length data"
proof -
  let ?af = "audio_format encoder"
  let ?ch = "unat (channels ?af)"
  let ?F = "unat len div (4 * ?ch) mod 2 ^ 32"
  let ?n = "ucast (len div ucast (audio_format_frame_size ?af)) :: 32 word"
  have c: "channels ?af \<noteq> 0"
    using write_division_by_zero [of encoder data len d] assms(2) by auto
  with assms(1) have o: "open_session encoder" by (simp add: open_session_def)
  note fs = frame_size_open [OF o]
  note n = num_frames_narrowed [OF o, of len]
  have small: "?F < 2 ^ 31"
    using write_no_room [OF o, of len data d] assms(2) by auto
  from assms(2) fs(2) obtain r' where
    "frames_loop (vorbis_analysis_buffer ?af (sint ?n)) data 0 (unat ?n) ?ch = Inr r'"
    by (auto simp: vorbis_encoder_write_def Let_def interleaved_to_vorbis_buffer_def
        split: sum.splits)
  from frames_loop_returns [OF this] n have "?F * ?ch \<le> length data" by simp
  with c small show ?thesis by simp
qed

subsection \<open>Open sessions\<close>

lemma open_session_emit [simp]: "open_session (emit cs encoder) = open_session encoder"
  by (simp add: open_session_def)

lemma step_open_session:
  assumes "step names encoder x = Inr encoder'" and "open_session encoder"
  shows "open_session encoder'"
proof (cases x)
  case (Write data len d)
  with assms obtain ok where "vorbis_encoder_write encoder data len d = Inr (ok, encoder')"
    by (auto split: sum.splits)
  from write_emit [OF this] assms(2) show ?thesis by auto
qed (use assms in \<open>auto simp: flush_emit pre_tag_emit tag_emit read_emit close_emit\<close>)

lemma run_open_session:
  "run names encoder xs = Inr encoder' \<Longrightarrow> open_session encoder \<Longrightarrow> open_session encoder'"
proof (induction xs arbitrary: encoder)
  case Nil
  then show ?case by simp
next
  case (Cons x xs)
  then obtain e1 where s: "step names encoder x = Inr e1" and r: "run names e1 xs = Inr encoder'"
    by (auto split: sum.splits)
  from Cons.IH [OF r step_open_session [OF s Cons.prems(2)]] show ?case .
qed

lemma open_open_session:
  assumes "vorbis_encoder_open encoder0 af rc random = (True, af', encoder)"
    and "channels af \<noteq> 0"
  shows "open_session encoder"
  using assms by (auto simp: open_emit Let_def open_session_def split: if_splits)

lemma step_audio_format:
  assumes "step names encoder x = Inr encoder'"
  shows "audio_format encoder' = audio_format encoder"
proof (cases x)
  case (Write data len d)
  with assms obtain ok where "vorbis_encoder_write encoder data len d = Inr (ok, encoder')"
    by (auto split: sum.splits)
  from write_emit [OF this] show ?thesis by auto
qed (use assms in \<open>auto simp: flush_emit pre_tag_emit tag_emit read_emit close_emit\<close>)

lemma run_audio_format:
  "run names encoder xs = Inr encoder' \<Longrightarrow> audio_format encoder' = audio_format encoder"
proof (induction xs arbitrary: encoder)
  case Nil
  then show ?case by simp
next
  case (Cons x xs)
  then obtain e1 where s: "step names encoder x = Inr e1" and r: "run names e1 xs = Inr encoder'"
    by (auto split: sum.splits)
  from Cons.IH [OF r] step_audio_format [OF s] show ?case by simp
qed

lemma open_audio_format:
  assumes "vorbis_encoder_open encoder0 af rc random = (ok, af', encoder)"
  shows "audio_format encoder = af\<lparr>format := SAMPLE_FORMAT_FLOAT\<rparr>"
  using assms by (auto simp: open_emit Let_def split: if_splits)

lemma mono_session_open: "open_session mono_session"
  by (simp add: mono_session_eq open_session_def mono_def)

text \<open>
  C8. The claim as amended. In every state that a session reaches after a successful
  open, \<open>vorbis_encoder_flush\<close>, \<open>vorbis_encoder_pre_tag\<close> and \<open>vorbis_encoder_tag\<close> return
  true, and \<open>vorbis_encoder_write\<close> never returns false, whatever its input. With \<open>n\<close> the
  byte length divided by the frame size (4 bytes times the channel count) and narrowed to
  32 bits, \<open>vorbis_encoder_write\<close> returns, with true, exactly when the session has a
  channel, \<open>n\<close> is below \<open>2^31\<close> and the source buffer holds \<open>n\<close> frames, as does every
  buffer of the length given. In a session with no channel it divides by zero; and for a
  buffer of the length given with \<open>n\<close> from \<open>2^31\<close> on it stores beyond the buffer of the
  codec. There C leaves the behaviour undefined, and the function does not return.
\<close>

theorem runtime_operations_never_report_failure:
  assumes "vorbis_encoder_open encoder0 af rc random = (True, af', encoder1)"
    and "run names encoder1 xs = Inr encoder"
  shows "fst (vorbis_encoder_flush encoder) \<and> fst (vorbis_encoder_pre_tag encoder d) \<and>
         fst (vorbis_encoder_tag names encoder tag random') \<and>
         (\<forall>encoder'. vorbis_encoder_write encoder data len d \<noteq> Inr (False, encoder')) \<and>
         (let ch = unat (channels (audio_format encoder));
              n = unat len div (4 * ch) mod 2 ^ 32
          in ((\<exists>encoder'. vorbis_encoder_write encoder data len d = Inr (True, encoder')) \<longleftrightarrow>
                ch \<noteq> 0 \<and> n < 2 ^ 31 \<and> n * ch \<le> length data) \<and>
             (buffer_of data len \<longrightarrow> n * ch \<le> length data) \<and>
             (ch = 0 \<longrightarrow> vorbis_encoder_write encoder data len d = Inl Division_by_zero) \<and>
             (ch \<noteq> 0 \<and> buffer_of data len \<and> \<not> n < 2 ^ 31 \<longrightarrow>
                vorbis_encoder_write encoder data len d = Inl Store_out_of_buffer))"
proof -
  let ?ch = "unat (channels (audio_format encoder))"
  let ?n = "unat len div (4 * ?ch) mod 2 ^ 32"
  let ?w = "vorbis_encoder_write encoder data len d"
  have f: "format (audio_format encoder) = SAMPLE_FORMAT_FLOAT"
    using run_audio_format [OF assms(2)] open_audio_format [OF assms(1)] by simp
  have z: "?ch = 0 \<longleftrightarrow> channels (audio_format encoder) = 0" by (simp add: unat_eq_0)
  have never: "\<forall>encoder'. ?w \<noteq> Inr (False, encoder')"
    using write_emit [of encoder data len d False] by blast
  have returns: "(\<exists>encoder'. ?w = Inr (True, encoder')) \<longleftrightarrow>
      ?ch \<noteq> 0 \<and> ?n < 2 ^ 31 \<and> ?n * ?ch \<le> length data"
  proof
    assume "\<exists>encoder'. ?w = Inr (True, encoder')"
    then obtain encoder' where "?w = Inr (True, encoder')" ..
    from write_returns [OF f this] z show "?ch \<noteq> 0 \<and> ?n < 2 ^ 31 \<and> ?n * ?ch \<le> length data"
      by simp
  next
    assume a: "?ch \<noteq> 0 \<and> ?n < 2 ^ 31 \<and> ?n * ?ch \<le> length data"
    with f z have o: "open_session encoder" by (simp add: open_session_def)
    from a have s: "?n < 2 ^ 31" and l: "?n * ?ch \<le> length data" by simp_all
    from write_ok_narrowed [OF o s l, of d] show "\<exists>encoder'. ?w = Inr (True, encoder')" by simp
  qed
  have fits: "buffer_of data len \<longrightarrow> ?n * ?ch \<le> length data"
    using buffer_fits [of data len ?ch] by simp
  have zero: "?ch = 0 \<longrightarrow> ?w = Inl Division_by_zero"
    using write_division_by_zero [of encoder data len d] z by simp
  have store: "?ch \<noteq> 0 \<and> buffer_of data len \<and> \<not> ?n < 2 ^ 31 \<longrightarrow> ?w = Inl Store_out_of_buffer"
  proof (intro impI, elim conjE)
    assume c: "?ch \<noteq> 0" and b: "buffer_of data len" and big: "\<not> ?n < 2 ^ 31"
    from f z c have o: "open_session encoder" by (simp add: open_session_def)
    have "?n \<noteq> 0" using big by auto
    with c have "0 < ?n * ?ch" by simp
    with buffer_fits [OF b, of ?ch] have "data \<noteq> []" by auto
    with write_no_room [OF o big, of data d] show "?w = Inl Store_out_of_buffer" by simp
  qed
  from never returns fits zero store show ?thesis
    by (simp only: Let_def flush_emit pre_tag_emit tag_emit fst_conv simp_thms)
qed

theorem runtime_operations_never_report_failure_witness:
  "fst (vorbis_encoder_flush (emit [Stream_Flush] example_session)) \<and>
   fst (vorbis_encoder_pre_tag (emit [Stream_Flush] example_session) []) \<and>
   fst (vorbis_encoder_tag (\<lambda>t. ''title'') (emit [Stream_Flush] example_session) example_tag 8) \<and>
   (\<exists>encoder'. vorbis_encoder_write (emit [Stream_Flush] example_session) [1, 2, 3, 4, 5] 23 [] =
      Inr (True, encoder')) \<and>
   vorbis_encoder_write example_session (replicate 4294967296 0) 17179869184 [] =
     Inl Store_out_of_buffer \<and>
   fst (vorbis_encoder_open (new_encoder\<lparr>quality := Number 5\<rparr>) (mono\<lparr>channels := 0\<rparr>) 0 7) \<and>
   vorbis_encoder_write
     (snd (snd (vorbis_encoder_open (new_encoder\<lparr>quality := Number 5\<rparr>) (mono\<lparr>channels := 0\<rparr>) 0 7)))
     [] 0 [] = Inl Division_by_zero"
proof -
  let ?names = "\<lambda>t :: nat. ''title''"
  let ?e = "emit [Stream_Flush] example_session"
  have r: "run ?names example_session [Flush] = Inr ?e"
    by (simp add: flush_emit)
  have c2: "unat (channels (audio_format example_session)) = 2"
    by (simp add: example_session_eq stereo_def)
  then have c: "unat (channels (audio_format ?e)) = 2" by simp
  have b: "buffer_of [1, 2, 3, 4, 5] 23" by (simp add: buffer_of_def)
  from runtime_operations_never_report_failure [OF example_open r, where d = "[]"
      and tag = example_tag and random' = 8 and data = "[1, 2, 3, 4, 5]" and len = 23] b
  have 1: "fst (vorbis_encoder_flush ?e) \<and> fst (vorbis_encoder_pre_tag ?e []) \<and>
      fst (vorbis_encoder_tag ?names ?e example_tag 8) \<and>
      (\<exists>encoder'. vorbis_encoder_write ?e [1, 2, 3, 4, 5] 23 [] = Inr (True, encoder'))"
    by (simp add: Let_def c c2)
  have r2: "run ?names example_session [] = Inr example_session" by simp
  have b2: "buffer_of (replicate 4294967296 0) 17179869184" by (simp add: buffer_of_def)
  from runtime_operations_never_report_failure [OF example_open r2, where d = "[]"
      and data = "replicate 4294967296 0" and len = 17179869184] b2
  have 2: "vorbis_encoder_write example_session (replicate 4294967296 0) 17179869184 [] =
      Inl Store_out_of_buffer"
    by (simp add: Let_def c2)
  obtain af' silent where o: "vorbis_encoder_open (new_encoder\<lparr>quality := Number 5\<rparr>)
      (mono\<lparr>channels := 0\<rparr>) 0 7 = (True, af', silent)"
    by (simp add: open_emit Let_def new_encoder_def)
  have r3: "run ?names silent [] = Inr silent" by simp
  have c3: "unat (channels (audio_format silent)) = 0"
    using open_audio_format [OF o] by simp
  from runtime_operations_never_report_failure [OF o r3, where d = "[]"
      and data = "[]" and len = 0]
  have "vorbis_encoder_write silent [] 0 [] = Inl Division_by_zero"
    by (simp add: Let_def c3)
  with o have 3: "fst (vorbis_encoder_open (new_encoder\<lparr>quality := Number 5\<rparr>)
      (mono\<lparr>channels := 0\<rparr>) 0 7) \<and>
    vorbis_encoder_write (snd (snd (vorbis_encoder_open (new_encoder\<lparr>quality := Number 5\<rparr>)
      (mono\<lparr>channels := 0\<rparr>) 0 7))) [] 0 [] = Inl Division_by_zero"
    by simp
  from 1 2 3 show ?thesis by simp
qed

text \<open>
  The claim as the spec states it fails: in a session with one channel, for a buffer of
  \<open>2^33\<close> bytes the frame count is \<open>2^31\<close>, which the codec reads as a negative \<open>int\<close>, and
  the first store of \<open>vorbis_encoder_write\<close> is beyond the buffer of the codec: the
  function does not return true.
\<close>

theorem write_faults_counterexample:
  "open_session mono_session \<and> buffer_of (replicate 2147483648 0) 8589934592 \<and>
   vorbis_encoder_write mono_session (replicate 2147483648 0) 8589934592 [] =
     Inl Store_out_of_buffer"
proof -
  have b: "buffer_of (replicate 2147483648 0) 8589934592" by (simp add: buffer_of_def)
  have c: "unat (channels (audio_format mono_session)) = 1"
    by (simp add: mono_session_eq mono_def)
  have "\<not> unat (8589934592 :: 64 word) div
      (4 * unat (channels (audio_format mono_session))) mod 2 ^ 32 < 2 ^ 31"
    by (simp add: c)
  from write_no_room [OF mono_session_open this, of "replicate 2147483648 0" "[]"]
    mono_session_open b
  show ?thesis by simp
qed

text \<open>
  C9. The claim as amended. In an open session the frame size is 4 bytes times the
  channel count. \<open>vorbis_encoder_write\<close> never loads a sample from beyond the source
  buffer. When the byte length divided by the frame size (integer division) is below
  \<open>2^31\<close>, this quotient is the frame count: the trailing bytes of a partial frame are
  discarded, exactly that many frames are de-interleaved into one array per channel, with
  \<open>dest[j][i] = src[i * channels + j]\<close>, every index within the source buffer, and that
  count is reported to \<open>vorbis_analysis_wrote\<close>.
\<close>

theorem write_deinterleaves:
  assumes "open_session encoder" and "buffer_of data len"
  shows "unat (audio_format_frame_size (audio_format encoder)) =
           4 * unat (channels (audio_format encoder)) \<and>
         vorbis_encoder_write encoder data len d \<noteq> Inl Load_out_of_buffer \<and>
         (unat len div unat (audio_format_frame_size (audio_format encoder)) < 2 ^ 31 \<longrightarrow>
            (let ch = unat (channels (audio_format encoder));
                 frames = unat len div unat (audio_format_frame_size (audio_format encoder))
             in frames * ch \<le> length data \<and>
                vorbis_encoder_write encoder data len d =
                  Inr (True,
                    emit (Vorbis_analysis_buffer (int frames) #
                          Pcm_store (planar data ch frames) #
                          Vorbis_analysis_wrote (int frames) # blockout_calls d) encoder) \<and>
                length (planar data ch frames) = ch \<and>
                (\<forall>j<ch. length (planar data ch frames ! j) = frames \<and>
                   (\<forall>i<frames. planar data ch frames ! j ! i = data ! (i * ch + j) \<and>
                      i * ch + j < length data))))"
proof -
  let ?ch = "unat (channels (audio_format encoder))"
  let ?F = "unat len div unat (audio_format_frame_size (audio_format encoder))"
  note fs = frame_size_open [OF assms(1)]
  have ch: "0 < ?ch" using assms(1) by (simp add: open_session_def unat_gt_0)
  have fit: "?F * ?ch \<le> length data"
    using frames_fit [of data "unat len" ?ch ?F] assms(2) ch fs(1) by (simp add: buffer_of_def)
  have idx: "i * ?ch + j < length data" if "j < ?ch" "i < ?F" for i j
  proof -
    have "i * ?ch + j < Suc i * ?ch" using that(1) by simp
    also have "\<dots> \<le> ?F * ?ch" using that(2) by (intro mult_le_mono1) simp
    finally show ?thesis using fit by simp
  qed
  have w: "?F < 2 ^ 31 \<Longrightarrow> vorbis_encoder_write encoder data len d =
      Inr (True, emit (Vorbis_analysis_buffer (int ?F) # Pcm_store (planar data ?ch ?F) #
                       Vorbis_analysis_wrote (int ?F) # blockout_calls d) encoder)"
    using write_ok [OF assms, of d] fs(1) by simp
  have p: "length (planar data ?ch ?F) = ?ch"
    "\<forall>j<?ch. length (planar data ?ch ?F ! j) = ?F \<and>
       (\<forall>i<?F. planar data ?ch ?F ! j ! i = data ! (i * ?ch + j))"
    by (simp_all add: planar_def)
  show ?thesis
    using fs(1) write_no_load [OF assms, of d] fit w p idx by (simp add: Let_def)
qed

theorem write_deinterleaves_witness:
  "open_session example_session \<and> buffer_of [1, 2, 3, 4, 5] 23 \<and>
   vorbis_encoder_write example_session [1, 2, 3, 4, 5] 23 [] =
     Inr (True, emit [Vorbis_analysis_buffer 2, Pcm_store [[1, 3], [2, 4]],
                      Vorbis_analysis_wrote 2, Vorbis_analysis_blockout False] example_session)"
proof -
  have b: "buffer_of [1, 2, 3, 4, 5] 23" by (simp add: buffer_of_def)
  have f: "unat (audio_format_frame_size (audio_format example_session)) = 8"
    using frame_size_open(1) [OF example_session_open] by (simp add: example_session_eq stereo_def)
  have c: "unat (channels (audio_format example_session)) = 2"
    by (simp add: example_session_eq stereo_def)
  from write_deinterleaves [OF example_session_open b, of "[]"] show ?thesis
    using example_session_open b by (simp add: f c Let_def planar_example)
qed

text \<open>
  The claim as the spec states it fails: the count is narrowed to an \<open>unsigned\<close> of 32
  bits. With one channel and a buffer of \<open>2^34\<close> bytes the quotient is \<open>2^32\<close>, and the
  plugin de-interleaves and reports 0 frames.
\<close>

theorem write_truncates_counterexample:
  "open_session mono_session \<and> buffer_of (replicate 4294967296 0) 17179869184 \<and>
   unat (17179869184 :: 64 word) div unat (audio_format_frame_size (audio_format mono_session)) =
     4294967296 \<and>
   vorbis_encoder_write mono_session (replicate 4294967296 0) 17179869184 [] =
     Inr (True, emit [Vorbis_analysis_buffer 0, Pcm_store [[]], Vorbis_analysis_wrote 0,
                      Vorbis_analysis_blockout False] mono_session)"
  by (simp add: mono_session_eq open_session_def mono_def buffer_of_def
      audio_format_frame_size_def sample_format_size_def vorbis_encoder_write_def Let_def
      interleaved_to_vorbis_buffer_def vorbis_analysis_buffer_def frames_loop.simps emit_def)

end
